theory Spec2Isabelle
  imports Main "HOL-Library.Word"
begin

section \<open>Common types (common.h)\<close>

text \<open>
  Pointers to heap objects are addresses; a nullable pointer is an \<open>addr option\<close> with
  \<open>None\<close> for \<open>NULL\<close>. A function pointer is the name of the function it points to: the
  fiber scheduler loop of fiber.h, or a function of the embedding program.
\<close>

type_synonym addr = nat

datatype fnptr = FiberSchedulerLoop_fn | User_fn nat

datatype ThreadPriority = THREAD_PRIORITY_LOW | THREAD_PRIORITY_DEFAULT | THREAD_PRIORITY_HIGH

text \<open>
  The enumerators in declaration order have the values 0, 1, 2. An object of the type
  \<open>ThreadPriority\<close> holds such a value in the integer type the compiler chooses for the
  enumeration. The enumeration has no negative enumerator, and gcc and clang (the compilers
  that accept the \<open>__sync\<close> builtins of fiber.h) then choose \<open>unsigned int\<close>: the value
  of a \<open>ThreadPriority\<close> object is a 32-bit word, arithmetic on it wraps around, and
  two such objects are compared as unsigned numbers. \<open>c_int\<close> is the C type \<open>int\<close> where
  the code computes with it: a 32-bit word read as a signed number by \<open>sint\<close>.
\<close>

type_synonym c_uint = "32 word"
type_synonym c_int = "32 word"

fun prio_val :: "ThreadPriority \<Rightarrow> c_uint" where
  "prio_val THREAD_PRIORITY_LOW = 0"
| "prio_val THREAD_PRIORITY_DEFAULT = 1"
| "prio_val THREAD_PRIORITY_HIGH = 2"

record KThreadContext =
  ID :: nat
  user_data :: "addr option"

record FiberContext =
  fiber_ID :: nat
  fiber_user_data :: "addr option"

section \<open>The emulated kernel threads (platform/emulated/kthread.h)\<close>

datatype KThreadState = KTHREAD_READY | KTHREAD_RUNNING | KTHREAD_SLEEPING | KTHREAD_DONE

record KThread =
  ctx :: KThreadContext
  worker :: fnptr
  state :: KThreadState
  sleep_ticks :: c_int
  exit_code :: int
  joined :: bool
  priority :: ThreadPriority

text \<open>
  \<open>threads\<close> is the storage of the table, one entry per slot of its capacity; only the
  first \<open>count\<close> slots are in use. Slots that realloc adds hold \<open>NULL\<close> in the model
  (they are uninitialised in C and never read before they are written).
\<close>

record KThreadScheduler =
  threads :: "addr option list"
  count :: nat
  capacity :: nat
  current_index :: nat

text \<open>
  The process state of the emulated backend: the scheduler table \<open>g_scheduler\<close>, the
  memory that holds the thread objects, the set of thread objects that are allocated and
  not freed, the static counter \<open>next_id\<close> of \<open>CreateKThread\<close>, and the answers that
  \<open>DIESEL_MEM_ALLOC\<close> and \<open>DIESEL_MEM_REALLOC\<close> (macros the embedding program may
  redefine) give to the calls still to come, in call order: \<open>None\<close> is a failed
  allocation, and an exhausted list fails every call. A freed object keeps what it last
  held; a handle to it dangles, and the properties below are about handles to objects
  that are allocated. The record is extensible: the fiber system adds its own globals
  below, and a worker function may change any of them.
\<close>

record emu =
  g_scheduler :: KThreadScheduler
  kmem :: "addr \<Rightarrow> KThread"
  klive :: "addr set"
  next_id :: nat
  allocs :: "addr option list"

text \<open>
  The code of the worker functions: \<open>KW w t s\<close> is the state in which the function
  \<open>w\<close>, called with the context of thread object \<open>t\<close> in state \<open>s\<close>, returns. Worker
  functions are taken to return.
\<close>

type_synonym 'z kworkers = "fnptr \<Rightarrow> addr \<Rightarrow> 'z emu_scheme \<Rightarrow> 'z emu_scheme"

definition mem_alloc :: "'z emu_scheme \<Rightarrow> addr option \<times> 'z emu_scheme" where
  "mem_alloc s = (case allocs s of [] \<Rightarrow> (None, s) | a # as \<Rightarrow> (a, s\<lparr>allocs := as\<rparr>))"

definition slot :: "'z emu_scheme \<Rightarrow> nat \<Rightarrow> addr option" where
  "slot s i = (if i < length (threads (g_scheduler s)) then threads (g_scheduler s) ! i else None)"

definition set_state :: "addr \<Rightarrow> KThreadState \<Rightarrow> 'z emu_scheme \<Rightarrow> 'z emu_scheme" where
  "set_state t st s = s\<lparr>kmem := (kmem s)(t := (kmem s t)\<lparr>state := st\<rparr>)\<rparr>"

text \<open>
  The doubling loop of \<open>ensure_capacity\<close>. It starts from 4 or from twice a non-zero
  capacity, so its argument is positive; the test \<open>0 < new_capacity\<close> is what makes the
  recursion total on the naturals.
\<close>

function grow_capacity :: "nat \<Rightarrow> nat \<Rightarrow> nat" where
  "grow_capacity new_capacity min_capacity =
     (if new_capacity < min_capacity \<and> 0 < new_capacity
      then grow_capacity (new_capacity * 2) min_capacity else new_capacity)"
  by pat_completeness auto
termination
  by (relation "measure (\<lambda>(c, m). m - c)") auto

declare grow_capacity.simps [simp del]

definition ensure_capacity :: "nat \<Rightarrow> 'z emu_scheme \<Rightarrow> bool \<times> 'z emu_scheme" where
  "ensure_capacity min_capacity s =
     (if capacity (g_scheduler s) \<ge> min_capacity then (True, s)
      else
        let new_capacity =
              grow_capacity (if capacity (g_scheduler s) \<noteq> 0 then capacity (g_scheduler s) * 2 else 4)
                min_capacity;
            (new_threads, s1) = mem_alloc s
        in case new_threads of
             None \<Rightarrow> (False, s1)
           | Some _ \<Rightarrow>
               (True, s1\<lparr>g_scheduler := (g_scheduler s1)
                  \<lparr>threads := threads (g_scheduler s1)
                      @ replicate (new_capacity - length (threads (g_scheduler s1))) None,
                   capacity := new_capacity\<rparr>\<rparr>))"

definition CreateKThread :: "fnptr \<Rightarrow> addr option \<Rightarrow> 'z emu_scheme \<Rightarrow> addr option \<times> 'z emu_scheme" where
  "CreateKThread wrk user_ptr s =
     (case ensure_capacity (count (g_scheduler s) + 1) s of
        (False, s1) \<Rightarrow> (None, s1)
      | (True, s1) \<Rightarrow>
          (case mem_alloc s1 of
             (None, s2) \<Rightarrow> (None, s2)
           | (Some t, s2) \<Rightarrow>
               (Some t,
                s2\<lparr>kmem := (kmem s2)(t :=
                      \<lparr>ctx = \<lparr>ID = next_id s2, user_data = user_ptr\<rparr>, worker = wrk,
                       state = KTHREAD_READY, sleep_ticks = 0, exit_code = 0, joined = False,
                       priority = THREAD_PRIORITY_DEFAULT\<rparr>),
                   klive := insert t (klive s2),
                   next_id := next_id s2 + 1,
                   g_scheduler := (g_scheduler s2)
                     \<lparr>threads := (threads (g_scheduler s2))[count (g_scheduler s2) := Some t],
                      count := count (g_scheduler s2) + 1\<rparr>\<rparr>)))"

definition SetKThreadPriority :: "addr option \<Rightarrow> ThreadPriority \<Rightarrow> 'z emu_scheme \<Rightarrow> bool \<times> 'z emu_scheme" where
  "SetKThreadPriority thread prio s =
     (case thread of
        None \<Rightarrow> (False, s)
      | Some t \<Rightarrow> (True, s\<lparr>kmem := (kmem s)(t := (kmem s t)\<lparr>priority := prio\<rparr>)\<rparr>))"

definition StartKThread :: "addr option \<Rightarrow> 'z emu_scheme \<Rightarrow> bool \<times> 'z emu_scheme" where
  "StartKThread thread s =
     (case thread of
        None \<Rightarrow> (False, s)
      | Some t \<Rightarrow>
          if state (kmem s t) \<noteq> KTHREAD_READY then (False, s)
          else (True, set_state t KTHREAD_RUNNING s))"

definition YieldKThread :: "'z emu_scheme \<Rightarrow> 'z emu_scheme" where
  "YieldKThread s =
     (if count (g_scheduler s) = 0 then s
      else case slot s (current_index (g_scheduler s)) of
             None \<Rightarrow> s
           | Some t \<Rightarrow>
               if state (kmem s t) = KTHREAD_RUNNING then set_state t KTHREAD_READY s else s)"

definition SleepKThread :: "c_int \<Rightarrow> 'z emu_scheme \<Rightarrow> 'z emu_scheme" where
  "SleepKThread ticks s =
     (if count (g_scheduler s) = 0 then s
      else case slot s (current_index (g_scheduler s)) of
             None \<Rightarrow> s
           | Some t \<Rightarrow>
               s\<lparr>kmem := (kmem s)(t := (kmem s t)\<lparr>sleep_ticks := ticks, state := KTHREAD_SLEEPING\<rparr>)\<rparr>)"

definition DestroyKThread :: "addr option \<Rightarrow> 'z emu_scheme \<Rightarrow> bool \<times> 'z emu_scheme" where
  "DestroyKThread thread s =
     (case thread of
        None \<Rightarrow> (False, s)
      | Some t \<Rightarrow> (True, set_state t KTHREAD_DONE s))"

subsection \<open>The scheduling tick\<close>

text \<open>
  The first loop of \<open>KThreadTick\<close>: one step for table index \<open>i\<close>, carrying the state,
  \<open>best_index\<close> (\<open>None\<close> for the sentinel \<open>SIZE_MAX\<close>) and \<open>best_prio\<close>. \<open>wake\<close> is
  what the step does to a Sleeping entry: decrement the counter and, at zero or below, make
  it Ready; it leaves every other entry as it is. The counter is a C \<open>int\<close>; decrementing
  the least \<open>int\<close> wraps around to the greatest one here (the decrement overflows in C),
  and the entry then stays Sleeping.

  \<open>best_prio\<close> is declared \<open>ThreadPriority\<close>, so it holds an unsigned word, and its
  start value \<open>THREAD_PRIORITY_LOW - 1\<close> is stored as the greatest word. The test
  \<open>t->priority > best_prio\<close> compares two objects of that type, as unsigned words.
\<close>

definition wake :: "KThread \<Rightarrow> KThread" where
  "wake k =
     (if state k = KTHREAD_SLEEPING
      then let k1 = k\<lparr>sleep_ticks := sleep_ticks k - 1\<rparr>
           in if sint (sleep_ticks k1) \<le> 0 then k1\<lparr>state := KTHREAD_READY\<rparr> else k1
      else k)"

definition scan_step ::
  "nat \<Rightarrow> 'z emu_scheme \<times> nat option \<times> c_uint \<Rightarrow> 'z emu_scheme \<times> nat option \<times> c_uint" where
  "scan_step i acc =
     (case acc of (s, best_index, best_prio) \<Rightarrow>
        (case slot s i of
           None \<Rightarrow> (s, best_index, best_prio)
         | Some t \<Rightarrow>
             let s1 = s\<lparr>kmem := (kmem s)(t := wake (kmem s t))\<rparr>
             in if state (kmem s1 t) = KTHREAD_READY \<and> prio_val (priority (kmem s1 t)) > best_prio
                then (s1, Some i, prio_val (priority (kmem s1 t)))
                else (s1, best_index, best_prio)))"

definition tick_scan :: "'z emu_scheme \<Rightarrow> 'z emu_scheme \<times> nat option \<times> c_uint" where
  "tick_scan s = fold scan_step [0 ..< count (g_scheduler s)] (s, None, prio_val THREAD_PRIORITY_LOW - 1)"

text \<open>
  The block guarded by \<open>best_index != SIZE_MAX\<close>: run the selected entry and set its
  state from what the worker left. The selected slot is never \<open>NULL\<close>; a \<open>NULL\<close> there
  would be dereferenced in C and leaves the state as it is here.
\<close>

definition tick_run :: "'z kworkers \<Rightarrow> nat option \<Rightarrow> 'z emu_scheme \<Rightarrow> 'z emu_scheme" where
  "tick_run KW best_index s =
     (case best_index of
        None \<Rightarrow> s
      | Some b \<Rightarrow>
          let s1 = s\<lparr>g_scheduler := (g_scheduler s)\<lparr>current_index := b\<rparr>\<rparr>
          in case slot s1 b of
               None \<Rightarrow> s1
             | Some t \<Rightarrow>
                 let s2 = set_state t KTHREAD_RUNNING s1;
                     s3 = KW (worker (kmem s2 t)) t s2
                 in if state (kmem s3 t) = KTHREAD_RUNNING then set_state t KTHREAD_READY s3
                    else if state (kmem s3 t) \<noteq> KTHREAD_SLEEPING then set_state t KTHREAD_DONE s3
                    else s3)"

text \<open>The second loop: free the entries that are Done and not joined, and close the gaps.\<close>

definition cleanup_step :: "nat \<Rightarrow> 'z emu_scheme \<times> nat \<Rightarrow> 'z emu_scheme \<times> nat" where
  "cleanup_step i acc =
     (case acc of (s, shift) \<Rightarrow>
        (case slot s i of
           Some t \<Rightarrow>
             if state (kmem s t) = KTHREAD_DONE \<and> \<not> joined (kmem s t)
             then (s\<lparr>klive := klive s - {t}\<rparr>, shift + 1)
             else if shift > 0
             then (s\<lparr>g_scheduler := (g_scheduler s)
                      \<lparr>threads := (threads (g_scheduler s))[i - shift := slot s i]\<rparr>\<rparr>, shift)
             else (s, shift)
         | None \<Rightarrow>
             if shift > 0
             then (s\<lparr>g_scheduler := (g_scheduler s)
                      \<lparr>threads := (threads (g_scheduler s))[i - shift := slot s i]\<rparr>\<rparr>, shift)
             else (s, shift)))"

definition tick_cleanup :: "'z emu_scheme \<Rightarrow> 'z emu_scheme" where
  "tick_cleanup s =
     (case fold cleanup_step [0 ..< count (g_scheduler s)] (s, 0) of
        (s1, shift) \<Rightarrow> s1\<lparr>g_scheduler := (g_scheduler s1)\<lparr>count := count (g_scheduler s1) - shift\<rparr>\<rparr>)"

definition KThreadTick :: "'z kworkers \<Rightarrow> 'z emu_scheme \<Rightarrow> 'z emu_scheme" where
  "KThreadTick KW s =
     (if count (g_scheduler s) = 0 then s
      else case tick_scan s of
             (s1, best_index, best_prio) \<Rightarrow> tick_cleanup (tick_run KW best_index s1))"

text \<open>
  \<open>JoinKThread\<close> pumps the tick until the target is Done. The loop need not end, so it is
  a partial function: \<open>None\<close> is a call that never returns.
\<close>

partial_function (option) join_loop ::
  "'z kworkers \<Rightarrow> addr \<Rightarrow> 'z emu_scheme \<Rightarrow> (int \<times> 'z emu_scheme) option" where
  "join_loop KW t s =
     (if state (kmem s t) \<noteq> KTHREAD_DONE then join_loop KW t (KThreadTick KW s)
      else Some (exit_code (kmem s t), s))"

definition JoinKThread ::
  "'z kworkers \<Rightarrow> addr option \<Rightarrow> 'z emu_scheme \<Rightarrow> (int \<times> 'z emu_scheme) option" where
  "JoinKThread KW thread s =
     (case thread of
        None \<Rightarrow> Some (- 1, s)
      | Some t \<Rightarrow> join_loop KW t (s\<lparr>kmem := (kmem s)(t := (kmem s t)\<lparr>joined := True\<rparr>)\<rparr>))"

subsection \<open>The table in use\<close>

text \<open>
  \<open>table s\<close> is the part of the scheduler table that is in use, the first \<open>count\<close>
  slots. \<open>table_ok\<close> is the shape that \<open>ensure_capacity\<close> and \<open>CreateKThread\<close>
  keep: the storage has \<open>capacity\<close> slots and the slots in use fit in it.
\<close>

definition table :: "'z emu_scheme \<Rightarrow> addr option list" where
  "table s = take (count (g_scheduler s)) (threads (g_scheduler s))"

definition table_ok :: "'z emu_scheme \<Rightarrow> bool" where
  "table_ok s =
     (length (threads (g_scheduler s)) = capacity (g_scheduler s)
      \<and> count (g_scheduler s) \<le> capacity (g_scheduler s))"

subsection \<open>Example programs on the emulated backend\<close>

text \<open>
  The state of a process at start (all globals zero) with given allocator answers, three
  worker functions (\<open>User_fn 0\<close> calls \<open>YieldKThread\<close> and returns, \<open>User_fn 2\<close> calls
  \<open>SleepKThread(5)\<close> and returns, every other one just returns), and the state after one
  \<open>CreateKThread\<close>: a table of capacity 4 whose only thread object, at address 1, is Ready.
\<close>

definition emu_init :: "addr option list \<Rightarrow> unit emu_scheme" where
  "emu_init answers =
     \<lparr>g_scheduler = \<lparr>threads = [], count = 0, capacity = 0, current_index = 0\<rparr>,
      kmem = (\<lambda>_. \<lparr>ctx = \<lparr>ID = 0, user_data = None\<rparr>, worker = User_fn 0, state = KTHREAD_READY,
                    sleep_ticks = 0, exit_code = 0, joined = False, priority = THREAD_PRIORITY_LOW\<rparr>),
      klive = {}, next_id = 1, allocs = answers\<rparr>"

definition demo_workers :: "unit kworkers" where
  "demo_workers w t s =
     (if w = User_fn 0 then YieldKThread s
      else if w = User_fn 2 then SleepKThread 5 s
      else s)"

definition one_thread :: "fnptr \<Rightarrow> unit emu_scheme" where
  "one_thread w = snd (CreateKThread w None (emu_init [Some 100, Some 1]))"

text \<open>
  That thread finished and joined: \<open>DestroyKThread\<close> has marked it Done, and
  \<open>JoinKThread\<close> has then marked it joined and returned.
\<close>

definition destroyed_once :: "unit emu_scheme" where
  "destroyed_once = snd (DestroyKThread (Some 1) (one_thread (User_fn 1)))"

definition joined_done :: "unit emu_scheme" where
  "joined_done = destroyed_once\<lparr>kmem := (kmem destroyed_once)(1 := (kmem destroyed_once 1)\<lparr>joined := True\<rparr>)\<rparr>"

text \<open>Three threads created in the order Low, High, High, and all Ready.\<close>

definition three_threads :: "unit emu_scheme" where
  "three_threads =
     (let (a, s1) = CreateKThread (User_fn 1) None (emu_init [Some 100, Some 1, Some 2, Some 3]);
          (b, s2) = CreateKThread (User_fn 1) None s1;
          (c, s3) = CreateKThread (User_fn 1) None s2;
          (_, s4) = SetKThreadPriority a THREAD_PRIORITY_LOW s3;
          (_, s5) = SetKThreadPriority b THREAD_PRIORITY_HIGH s4;
          (_, s6) = SetKThreadPriority c THREAD_PRIORITY_HIGH s5
      in s6)"

text \<open>
  A worker function that leaves a trace when it is called: it sets the static counter
  \<open>next_id\<close> to zero.
\<close>

definition tracing_workers :: "unit kworkers" where
  "tracing_workers w t s = s\<lparr>next_id := 0\<rparr>"

section \<open>The POSIX kernel threads (platform/unix/kthread.h)\<close>

text \<open>
  The thread object of the POSIX backend. Its mutex and condition variable live inside
  the object and are named by the object's address. The calls into the pthread library are
  parameters: each is a function on an operating-system state of any type
  (\<open>pthread_getschedparam\<close> gives its result, the policy and the priority). The model
  covers the operations that take a handle; \<open>ulive\<close> is the set of allocated blocks
  (thread objects and their contexts). What the thread itself does to memory while another
  thread waits for it is not part of this model.
\<close>

datatype fault = DoubleFree | NullDeref | UseAfterFree

record UKThread =
  thread :: nat
  started :: bool
  thread_finished :: bool
  thread_worker :: fnptr
  thread_ctx :: "addr option"

record 'os pthreads =
  pthread_join :: "nat \<Rightarrow> 'os \<Rightarrow> int \<times> 'os"
  pthread_cond_destroy :: "addr \<Rightarrow> 'os \<Rightarrow> 'os"
  pthread_mutex_destroy :: "addr \<Rightarrow> 'os \<Rightarrow> 'os"
  pthread_mutex_lock :: "addr \<Rightarrow> 'os \<Rightarrow> 'os"
  pthread_mutex_unlock :: "addr \<Rightarrow> 'os \<Rightarrow> 'os"
  pthread_cond_signal :: "addr \<Rightarrow> 'os \<Rightarrow> 'os"
  pthread_getschedparam :: "nat \<Rightarrow> 'os \<Rightarrow> int \<times> int \<times> int"
  sched_get_priority_min :: "int \<Rightarrow> int"
  sched_get_priority_max :: "int \<Rightarrow> int"
  pthread_setschedparam :: "nat \<Rightarrow> int \<Rightarrow> int \<Rightarrow> 'os \<Rightarrow> int \<times> 'os"

record 'os unix =
  umem :: "addr \<Rightarrow> UKThread"
  ulive :: "addr set"
  os :: 'os

text \<open>
  \<open>DIESEL_MEM_FREE\<close> of a block that is not allocated (freed before, or never
  allocated) is the fault \<open>DoubleFree\<close>. \<open>DestroyKThread\<close> is the operation that frees
  the thread object; its first access to the object is the read of \<open>thread->thread\<close>
  for \<open>pthread_join\<close>, and when the object is not allocated (a handle that was destroyed
  before) that read is the fault \<open>UseAfterFree\<close>.
\<close>

definition mem_free :: "addr \<Rightarrow> 'os unix \<Rightarrow> fault + 'os unix" where
  "mem_free p s = (if p \<in> ulive s then Inr (s\<lparr>ulive := ulive s - {p}\<rparr>) else Inl DoubleFree)"

definition unix_DestroyKThread ::
  "'os pthreads \<Rightarrow> addr option \<Rightarrow> 'os unix \<Rightarrow> fault + (bool \<times> 'os unix)" where
  "unix_DestroyKThread P thr s =
     (case thr of
        None \<Rightarrow> Inr (False, s)
      | Some t \<Rightarrow>
          if t \<notin> ulive s then Inl UseAfterFree
          else
            let (res, o1) = pthread_join P (thread (umem s t)) (os s);
                o2 = pthread_cond_destroy P t o1;
                o3 = pthread_mutex_destroy P t o2;
                s1 = s\<lparr>os := o3\<rparr>
            in case (case thread_ctx (umem s1 t) of None \<Rightarrow> Inr s1 | Some c \<Rightarrow> mem_free c s1) of
                 Inl e \<Rightarrow> Inl e
               | Inr s2 \<Rightarrow>
                   (case mem_free t s2 of
                      Inl e \<Rightarrow> Inl e
                    | Inr s3 \<Rightarrow> Inr (True, s3)))"

definition unix_JoinKThread :: "'os pthreads \<Rightarrow> addr option \<Rightarrow> 'os unix \<Rightarrow> int \<times> 'os unix" where
  "unix_JoinKThread P thr s =
     (case thr of
        None \<Rightarrow> (- 1, s)
      | Some t \<Rightarrow>
          let (res, o1) = pthread_join P (thread (umem s t)) (os s)
          in if res \<noteq> 0 then (- 1, s\<lparr>os := o1\<rparr>) else (0, s\<lparr>os := o1\<rparr>))"

text \<open>Division of C integers by two, which rounds toward zero.\<close>

definition c_half :: "int \<Rightarrow> int" where
  "c_half x = (if x < 0 then - ((- x) div 2) else x div 2)"

definition unix_SetKThreadPriority ::
  "'os pthreads \<Rightarrow> addr option \<Rightarrow> ThreadPriority \<Rightarrow> 'os unix \<Rightarrow> bool \<times> 'os unix" where
  "unix_SetKThreadPriority P thr prio s =
     (case thr of
        None \<Rightarrow> (False, s)
      | Some t \<Rightarrow>
          (case pthread_getschedparam P (thread (umem s t)) (os s) of
             (res, policy, param) \<Rightarrow>
               if res \<noteq> 0 then (False, s)
               else
                 let min = sched_get_priority_min P policy;
                     max = sched_get_priority_max P policy;
                     sched_priority =
                       (case prio of
                          THREAD_PRIORITY_LOW \<Rightarrow> min
                        | THREAD_PRIORITY_DEFAULT \<Rightarrow> c_half (min + max)
                        | THREAD_PRIORITY_HIGH \<Rightarrow> max);
                     (res2, o1) = pthread_setschedparam P (thread (umem s t)) policy sched_priority (os s)
                 in (res2 = 0, s\<lparr>os := o1\<rparr>)))"

definition unix_StartKThread :: "'os pthreads \<Rightarrow> addr option \<Rightarrow> 'os unix \<Rightarrow> bool \<times> 'os unix" where
  "unix_StartKThread P thr s =
     (case thr of
        None \<Rightarrow> (False, s)
      | Some t \<Rightarrow>
          let o1 = pthread_mutex_lock P t (os s);
              s1 = s\<lparr>umem := (umem s)(t := (umem s t)\<lparr>started := True\<rparr>)\<rparr>;
              o2 = pthread_cond_signal P t o1;
              o3 = pthread_mutex_unlock P t o2
          in (True, s1\<lparr>os := o3\<rparr>))"

text \<open>
  An example: a pthread library whose calls succeed and keep no state, and a process with
  one thread object at address 1 whose context is the block at address 2.
\<close>

definition demo_pthreads :: "unit pthreads" where
  "demo_pthreads =
     \<lparr>pthread_join = (\<lambda>_ o1. (0, o1)), pthread_cond_destroy = (\<lambda>_ o1. o1),
      pthread_mutex_destroy = (\<lambda>_ o1. o1), pthread_mutex_lock = (\<lambda>_ o1. o1),
      pthread_mutex_unlock = (\<lambda>_ o1. o1), pthread_cond_signal = (\<lambda>_ o1. o1),
      pthread_getschedparam = (\<lambda>_ o1. (0, 0, 0)), sched_get_priority_min = (\<lambda>_. 0),
      sched_get_priority_max = (\<lambda>_. 0), pthread_setschedparam = (\<lambda>_ _ _ o1. (0, o1))\<rparr>"

definition demo_unix :: "unit unix" where
  "demo_unix =
     \<lparr>umem = (\<lambda>_. \<lparr>thread = 7, started = True, thread_finished = True,
                    thread_worker = User_fn 1, thread_ctx = Some 2\<rparr>),
      ulive = {1, 2}, os = ()\<rparr>"

section \<open>The mutex (platform/unix/ksync.h, platform/emulated/ksync.h)\<close>

text \<open>
  \<open>LockKMutex\<close> and \<open>UnlockKMutex\<close> are called by threads that the kernel runs
  concurrently, so their model is the interleaving of the atomic actions of the threads.
  There are three implementations, chosen when the library is compiled: the futex mutex
  of unix/ksync.h (\<open>SYNC_USE_USERMODE_LOCKS\<close> on Linux), whose \<open>KMutex\<close> is the atomic
  word \<open>state\<close> (0 unlocked, 1 locked); the mutex of unix/ksync.h that wraps a
  \<open>pthread_mutex_t\<close>; and the stand-in of emulated/ksync.h, whose lock and unlock do
  nothing.

  The operations on \<open>state\<close> are those of \<open>stdatomic.h\<close> with their default
  sequentially consistent order: each is one indivisible action, and the actions of all
  threads form one sequence.
\<close>

datatype mutex_impl = Futex_mutex | Pthread_mutex | Noop_mutex

text \<open>
  Each thread runs the counting program: \<open>C\<close> times, lock the mutex, increment the
  shared counter, unlock the mutex. The increment is a load of the counter
  into a local followed by a store of the local plus one. A thread is at one of these
  points: the loop test; in \<open>LockKMutex\<close> at the compare-and-swap of the fast path, at
  the load of the slow path's \<open>while\<close>, at the call of \<open>_futex_wait\<close>, asleep in the
  kernel inside that call, at the compare-and-swap of the slow path, or at
  \<open>pthread_mutex_lock\<close>; at the load or at the store of the increment; in
  \<open>UnlockKMutex\<close> at \<open>atomic_store\<close>, at \<open>_futex_wake\<close>, or at
  \<open>pthread_mutex_unlock\<close>; or it has finished.
\<close>

datatype pc =
    Loop_test
  | Lock_fast | Lock_load | Lock_wait | Lock_asleep | Lock_cas | Lock_pthread
  | Incr_load | Incr_store
  | Unlock_store | Unlock_wake | Unlock_pthread
  | Finished

record mthread =
  pc :: pc
  tmp :: nat
  iters :: nat

text \<open>
  The shared memory: the word \<open>state\<close> of the futex mutex, the \<open>pthread_mutex_t\<close> of the
  other one (locked or not), the counter, and the threads.
\<close>

record msys =
  mutex_state :: int
  mtx_locked :: bool
  counter :: nat
  mthreads :: "mthread list"

definition set_thread :: "nat \<Rightarrow> mthread \<Rightarrow> msys \<Rightarrow> msys" where
  "set_thread i t s = s\<lparr>mthreads := (mthreads s)[i := t]\<rparr>"

definition atomic_compare_exchange_strong :: "int \<Rightarrow> int \<Rightarrow> msys \<Rightarrow> bool \<times> msys" where
  "atomic_compare_exchange_strong expected desired s =
     (if mutex_state s = expected then (True, s\<lparr>mutex_state := desired\<rparr>) else (False, s))"

definition atomic_load :: "msys \<Rightarrow> int" where
  "atomic_load s = mutex_state s"

definition atomic_store :: "int \<Rightarrow> msys \<Rightarrow> msys" where
  "atomic_store v s = s\<lparr>mutex_state := v\<rparr>"

text \<open>
  \<open>FUTEX_WAIT\<close> compares the word with the expected value and, when they are equal, puts
  the caller to sleep, in one action; otherwise it returns at once. \<open>FUTEX_WAKE\<close> for one
  waiter wakes one of the sleeping threads if there is any; which one is the kernel's
  choice, given here by a number. A woken thread returns from \<open>_futex_wait\<close> to the test
  of the \<open>while\<close> loop.
\<close>

definition futex_wait :: "nat \<Rightarrow> int \<Rightarrow> msys \<Rightarrow> msys" where
  "futex_wait i expected s =
     (if mutex_state s = expected
      then set_thread i ((mthreads s ! i)\<lparr>pc := Lock_asleep\<rparr>) s
      else set_thread i ((mthreads s ! i)\<lparr>pc := Lock_load\<rparr>) s)"

definition sleepers :: "msys \<Rightarrow> nat list" where
  "sleepers s = filter (\<lambda>j. pc (mthreads s ! j) = Lock_asleep) [0 ..< length (mthreads s)]"

definition futex_wake :: "nat \<Rightarrow> msys \<Rightarrow> msys" where
  "futex_wake choice s =
     (case sleepers s of
        [] \<Rightarrow> s
      | j # js \<Rightarrow>
          let k = (j # js) ! (choice mod length (j # js))
          in set_thread k ((mthreads s ! k)\<lparr>pc := Lock_load\<rparr>) s)"

text \<open>
  \<open>pthread_mutex_lock\<close> and \<open>pthread_mutex_unlock\<close> are calls into the system's thread
  library. Modelled from POSIX: \<open>pthread_mutex_lock\<close> returns with the mutex locked by the
  caller and blocks while the mutex is locked; \<open>pthread_mutex_unlock\<close> by the owner
  releases it.
\<close>

definition pthread_mutex_lock_step :: "nat \<Rightarrow> msys \<Rightarrow> msys" where
  "pthread_mutex_lock_step i s =
     (if mtx_locked s then s
      else set_thread i ((mthreads s ! i)\<lparr>pc := Incr_load\<rparr>) (s\<lparr>mtx_locked := True\<rparr>))"

text \<open>
  One atomic action of thread \<open>i\<close>, which is at the point \<open>pc\<close>. A thread that is asleep
  or has finished does nothing.
\<close>

definition thread_step :: "mutex_impl \<Rightarrow> nat \<Rightarrow> nat \<Rightarrow> nat \<Rightarrow> msys \<Rightarrow> msys" where
  "thread_step impl C i choice s =
     (let t = mthreads s ! i in
      case pc t of
        Loop_test \<Rightarrow>
          if iters t < C
          then set_thread i (t\<lparr>pc := (case impl of Futex_mutex \<Rightarrow> Lock_fast
                                        | Pthread_mutex \<Rightarrow> Lock_pthread
                                        | Noop_mutex \<Rightarrow> Incr_load)\<rparr>) s
          else set_thread i (t\<lparr>pc := Finished\<rparr>) s
      | Lock_fast \<Rightarrow>
          (case atomic_compare_exchange_strong 0 1 s of
             (True, s1) \<Rightarrow> set_thread i (t\<lparr>pc := Incr_load\<rparr>) s1
           | (False, s1) \<Rightarrow> set_thread i (t\<lparr>pc := Lock_load\<rparr>) s1)
      | Lock_load \<Rightarrow>
          if atomic_load s \<noteq> 0 then set_thread i (t\<lparr>pc := Lock_wait\<rparr>) s
          else set_thread i (t\<lparr>pc := Lock_cas\<rparr>) s
      | Lock_wait \<Rightarrow> futex_wait i 1 s
      | Lock_asleep \<Rightarrow> s
      | Lock_cas \<Rightarrow>
          (case atomic_compare_exchange_strong 0 1 s of
             (True, s1) \<Rightarrow> set_thread i (t\<lparr>pc := Incr_load\<rparr>) s1
           | (False, s1) \<Rightarrow> set_thread i (t\<lparr>pc := Lock_load\<rparr>) s1)
      | Lock_pthread \<Rightarrow> pthread_mutex_lock_step i s
      | Incr_load \<Rightarrow> set_thread i (t\<lparr>tmp := counter s, pc := Incr_store\<rparr>) s
      | Incr_store \<Rightarrow>
          (case impl of
             Futex_mutex \<Rightarrow> set_thread i (t\<lparr>pc := Unlock_store\<rparr>) (s\<lparr>counter := tmp t + 1\<rparr>)
           | Pthread_mutex \<Rightarrow> set_thread i (t\<lparr>pc := Unlock_pthread\<rparr>) (s\<lparr>counter := tmp t + 1\<rparr>)
           | Noop_mutex \<Rightarrow>
               set_thread i (t\<lparr>pc := Loop_test, iters := iters t + 1\<rparr>) (s\<lparr>counter := tmp t + 1\<rparr>))
      | Unlock_store \<Rightarrow> set_thread i (t\<lparr>pc := Unlock_wake\<rparr>) (atomic_store 0 s)
      | Unlock_wake \<Rightarrow> set_thread i (t\<lparr>pc := Loop_test, iters := iters t + 1\<rparr>) (futex_wake choice s)
      | Unlock_pthread \<Rightarrow>
          set_thread i (t\<lparr>pc := Loop_test, iters := iters t + 1\<rparr>) (s\<lparr>mtx_locked := False\<rparr>)
      | Finished \<Rightarrow> s)"

text \<open>
  What happens next is the kernel's choice: thread \<open>i\<close> takes its next action (\<open>Run\<close>,
  with the choice that a wake-up would make), or a thread asleep in \<open>_futex_wait\<close> is
  made to return without a wake-up, as a signal does (\<open>Interrupt\<close>). A schedule is a list
  of such events, and \<open>run\<close> executes it.
\<close>

datatype event = Run nat nat | Interrupt nat

definition exec :: "mutex_impl \<Rightarrow> nat \<Rightarrow> event \<Rightarrow> msys \<Rightarrow> msys" where
  "exec impl C e s =
     (case e of
        Run i choice \<Rightarrow> if i < length (mthreads s) then thread_step impl C i choice s else s
      | Interrupt i \<Rightarrow>
          if i < length (mthreads s) \<and> pc (mthreads s ! i) = Lock_asleep
          then set_thread i ((mthreads s ! i)\<lparr>pc := Lock_load\<rparr>) s
          else s)"

definition run :: "mutex_impl \<Rightarrow> nat \<Rightarrow> event list \<Rightarrow> msys \<Rightarrow> msys" where
  "run impl C es s = fold (exec impl C) es s"

text \<open>\<open>N\<close> threads about to start, the mutex unlocked and the counter zero.\<close>

definition mutex_init :: "nat \<Rightarrow> msys" where
  "mutex_init N =
     \<lparr>mutex_state = 0, mtx_locked = False, counter = 0,
      mthreads = replicate N \<lparr>pc = Loop_test, tmp = 0, iters = 0\<rparr>\<rparr>"

text \<open>
  A thread holds the mutex from the action with which \<open>LockKMutex\<close> returns to the action
  with which \<open>UnlockKMutex\<close> releases it.
\<close>

definition holds :: "mthread \<Rightarrow> bool" where
  "holds t = (pc t = Incr_load \<or> pc t = Incr_store \<or> pc t = Unlock_store \<or> pc t = Unlock_pthread)"

definition holders :: "msys \<Rightarrow> nat" where
  "holders s = length (filter holds (mthreads s))"

text \<open>
  The invariant of the executions: the number of holders is one when the mutex is locked
  and zero when it is not; the counter is the number of increments made, which is the
  iterations that the threads have completed plus one for each thread that has stored and
  not yet completed the iteration; a thread about to store holds the current value of
  the counter in its local.
\<close>

definition credit :: "mthread \<Rightarrow> nat" where
  "credit t = iters t + (if pc t = Unlock_store \<or> pc t = Unlock_wake \<or> pc t = Unlock_pthread then 1 else 0)"

definition locked :: "mutex_impl \<Rightarrow> msys \<Rightarrow> bool" where
  "locked impl s = (if impl = Futex_mutex then mutex_state s = 1 else mtx_locked s)"

definition thread_ok :: "mutex_impl \<Rightarrow> nat \<Rightarrow> nat \<Rightarrow> mthread \<Rightarrow> bool" where
  "thread_ok impl C cnt t =
     ((pc t = Incr_store \<longrightarrow> tmp t = cnt)
      \<and> iters t \<le> C
      \<and> (pc t = Finished \<longrightarrow> iters t = C)
      \<and> (pc t \<noteq> Loop_test \<and> pc t \<noteq> Finished \<longrightarrow> iters t < C)
      \<and> (impl = Futex_mutex \<longrightarrow> pc t \<noteq> Lock_pthread \<and> pc t \<noteq> Unlock_pthread)
      \<and> (impl = Pthread_mutex \<longrightarrow>
            pc t \<noteq> Lock_fast \<and> pc t \<noteq> Lock_load \<and> pc t \<noteq> Lock_wait \<and> pc t \<noteq> Lock_asleep
            \<and> pc t \<noteq> Lock_cas \<and> pc t \<noteq> Unlock_store \<and> pc t \<noteq> Unlock_wake))"

definition mutex_inv :: "mutex_impl \<Rightarrow> nat \<Rightarrow> msys \<Rightarrow> bool" where
  "mutex_inv impl C s =
     (holders s = (if locked impl s then 1 else 0)
      \<and> (impl = Futex_mutex \<longrightarrow> mutex_state s = 0 \<or> mutex_state s = 1)
      \<and> counter s = sum_list (map credit (mthreads s))
      \<and> (\<forall>j < length (mthreads s). thread_ok impl C (counter s) (mthreads s ! j)))"

text \<open>
  A schedule on which the threads run one after the other, each from its start to its
  end: an iteration of the counting program takes six actions with the futex mutex, five
  with the pthread mutex and three with the lock that does nothing, and one more action
  ends the loop. \<open>quiet\<close> is a state between two iterations with the mutex unlocked, and
  \<open>iterated i n s s'\<close> says that \<open>s'\<close> is \<open>s\<close> after \<open>n\<close> more iterations of thread
  \<open>i\<close> alone.
\<close>

definition iteration_steps :: "mutex_impl \<Rightarrow> nat" where
  "iteration_steps impl = (case impl of Futex_mutex \<Rightarrow> 6 | Pthread_mutex \<Rightarrow> 5 | Noop_mutex \<Rightarrow> 3)"

definition alone :: "mutex_impl \<Rightarrow> nat \<Rightarrow> nat \<Rightarrow> event list" where
  "alone impl C i = concat (replicate C (replicate (iteration_steps impl) (Run i 0))) @ [Run i 0]"

definition one_by_one :: "mutex_impl \<Rightarrow> nat \<Rightarrow> nat \<Rightarrow> event list" where
  "one_by_one impl N C = concat (map (alone impl C) [0 ..< N])"

definition quiet :: "msys \<Rightarrow> bool" where
  "quiet s = (mutex_state s = 0 \<and> \<not> mtx_locked s
       \<and> (\<forall>j<length (mthreads s). pc (mthreads s ! j) = Loop_test \<or> pc (mthreads s ! j) = Finished))"

definition iterated :: "nat \<Rightarrow> nat \<Rightarrow> msys \<Rightarrow> msys \<Rightarrow> bool" where
  "iterated i n s s' =
     (quiet s' \<and> length (mthreads s') = length (mthreads s)
      \<and> pc (mthreads s' ! i) = Loop_test \<and> iters (mthreads s' ! i) = iters (mthreads s ! i) + n
      \<and> counter s' = counter s + n
      \<and> (\<forall>j. j \<noteq> i \<longrightarrow> mthreads s' ! j = mthreads s ! j))"

text \<open>
  Two threads and one iteration each, on a schedule with contention: thread 1 finds the
  mutex taken, goes to sleep in the kernel and is woken by the unlock of thread 0.
\<close>

definition contended :: "event list" where
  "contended =
     [Run 0 0, Run 0 0, Run 1 0, Run 1 0, Run 1 0, Run 1 0,
      Run 0 0, Run 0 0, Run 0 0, Run 0 0, Run 0 0,
      Run 1 0, Run 1 0, Run 1 0, Run 1 0, Run 1 0, Run 1 0, Run 1 0]"

text \<open>
  The same with the pthread mutex: thread 1 calls \<open>pthread_mutex_lock\<close> while thread 0
  holds the mutex and stays blocked in it until thread 0 has unlocked.
\<close>

definition blocked :: "event list" where
  "blocked =
     [Run 0 0, Run 0 0, Run 1 0, Run 1 0, Run 1 0,
      Run 0 0, Run 0 0, Run 0 0, Run 0 0,
      Run 1 0, Run 1 0, Run 1 0, Run 1 0, Run 1 0]"

text \<open>
  A schedule on which both threads load the counter before either stores it; the lock
  that does nothing allows it.
\<close>

definition racing :: "event list" where
  "racing = [Run 0 0, Run 0 0, Run 1 0, Run 1 0, Run 0 0, Run 1 0, Run 0 0, Run 1 0]"

section \<open>The fiber system (fiber.h)\<close>

text \<open>
  The fiber system runs on the kernel threads of the backend it is compiled with; here
  that is the emulated backend, whose code is all in the repository. The process state is
  the state of the emulated backend extended by the global \<open>g_fiber_system\<close>, the memory
  that holds the fiber objects and the set of fiber objects that are allocated and not
  freed. The array \<open>workers\<close> is \<open>NULL\<close> (\<open>None\<close>) or holds one thread handle per slot.
\<close>

record Fiber =
  fiber_ctx :: FiberContext
  fiber_worker :: fnptr
  fiber_priority :: ThreadPriority
  finished :: bool
  fiber_next :: "addr option"

record FiberSystem =
  run_queue :: "addr option"
  workers :: "addr option list option"
  worker_count :: int
  running :: bool

record world = emu +
  g_fiber_system :: FiberSystem
  fmem :: "addr \<Rightarrow> Fiber"
  flive :: "addr set"

text \<open>
  The code of the fiber bodies: \<open>FW w f s\<close> is the state in which the function \<open>w\<close>,
  called with the context of fiber \<open>f\<close> in state \<open>s\<close>, returns.
\<close>

type_synonym fworkers = "fnptr \<Rightarrow> addr \<Rightarrow> world \<Rightarrow> world"

subsection \<open>The run queue\<close>

text \<open>
  \<open>FiberDatLoad\<close> of the queue head, and the compare-and-swap on it. Both retry loops
  are kept as they are written; with no other thread between the load and the swap the
  swap succeeds at once, which is their termination proof.
\<close>

definition FiberDatLoad_run_queue :: "world \<Rightarrow> addr option" where
  "FiberDatLoad_run_queue s = run_queue (g_fiber_system s)"

definition cas_run_queue :: "addr option \<Rightarrow> addr option \<Rightarrow> world \<Rightarrow> bool \<times> world" where
  "cas_run_queue expected new s =
     (if run_queue (g_fiber_system s) = expected
      then (True, s\<lparr>g_fiber_system := (g_fiber_system s)\<lparr>run_queue := new\<rparr>\<rparr>)
      else (False, s))"

function PopFiber :: "world \<Rightarrow> addr option \<times> world" where
  "PopFiber s =
     (case FiberDatLoad_run_queue s of
        None \<Rightarrow> (None, s)
      | Some f \<Rightarrow>
          (case cas_run_queue (Some f) (fiber_next (fmem s f)) s of
             (True, s1) \<Rightarrow> (Some f, s1)
           | (False, s1) \<Rightarrow> PopFiber s1))"
  by pat_completeness auto
termination
  by (relation "{}") (auto simp: cas_run_queue_def FiberDatLoad_run_queue_def)

function PushFiber :: "addr \<Rightarrow> world \<Rightarrow> world" where
  "PushFiber f s =
     (let head = FiberDatLoad_run_queue s;
          s1 = s\<lparr>fmem := (fmem s)(f := (fmem s f)\<lparr>fiber_next := head\<rparr>)\<rparr>
      in case cas_run_queue head (Some f) s1 of
           (True, s2) \<Rightarrow> s2
         | (False, s2) \<Rightarrow> PushFiber f s2)"
  by pat_completeness auto
termination
  by (relation "{}") (auto simp: cas_run_queue_def FiberDatLoad_run_queue_def)

declare PopFiber.simps [simp del] PushFiber.simps [simp del]

subsection \<open>The scheduler loop\<close>

text \<open>
  The loop of a worker thread runs until the running flag is cleared, so it is a partial
  function. \<open>scheduler_step\<close> is the body of one pass taken alone.
\<close>

partial_function (option) FiberSchedulerLoop :: "fworkers \<Rightarrow> world \<Rightarrow> world option" where
  "FiberSchedulerLoop FW s =
     (if running (g_fiber_system s)
      then (case PopFiber s of
              (None, s1) \<Rightarrow> FiberSchedulerLoop FW (SleepKThread 1 s1)
            | (Some f, s1) \<Rightarrow>
                if \<not> finished (fmem s1 f)
                then let s2 = FW (fiber_worker (fmem s1 f)) f s1
                     in FiberSchedulerLoop FW (s2\<lparr>fmem := (fmem s2)(f := (fmem s2 f)\<lparr>finished := True\<rparr>)\<rparr>)
                else FiberSchedulerLoop FW s1)
      else Some s)"

definition scheduler_step :: "fworkers \<Rightarrow> world \<Rightarrow> world" where
  "scheduler_step FW s =
     (case PopFiber s of
        (None, s1) \<Rightarrow> SleepKThread 1 s1
      | (Some f, s1) \<Rightarrow>
          if \<not> finished (fmem s1 f)
          then let s2 = FW (fiber_worker (fmem s1 f)) f s1
               in s2\<lparr>fmem := (fmem s2)(f := (fmem s2 f)\<lparr>finished := True\<rparr>)\<rparr>
          else s1)"

subsection \<open>Starting and stopping the system\<close>

text \<open>
  \<open>init_worker\<close> is the body of the loop of \<open>InitFiberSys\<close>: create a thread that runs
  the scheduler loop, store its handle in slot \<open>i\<close> (a store through a \<open>NULL\<close> array
  pointer is the fault \<open>NullDeref\<close>), set its priority and start it. The array just
  allocated holds \<open>NULL\<close> in every slot here (it is uninitialised in C, and each slot is
  written before it is read).
\<close>

definition array_at :: "addr option list \<Rightarrow> nat \<Rightarrow> addr option" where
  "array_at ws i = (if i < length ws then ws ! i else None)"

definition init_worker :: "ThreadPriority \<Rightarrow> nat \<Rightarrow> world \<Rightarrow> fault + world" where
  "init_worker prio i s =
     (case CreateKThread FiberSchedulerLoop_fn None s of
        (t, s1) \<Rightarrow>
          (case workers (g_fiber_system s1) of
             None \<Rightarrow> Inl NullDeref
           | Some ws \<Rightarrow>
               let s2 = s1\<lparr>g_fiber_system := (g_fiber_system s1)\<lparr>workers := Some (ws[i := t])\<rparr>\<rparr>;
                   (r1, s3) = SetKThreadPriority (array_at (ws[i := t]) i) prio s2;
                   (r2, s4) = StartKThread (array_at (ws[i := t]) i) s3
               in Inr s4))"

function init_loop :: "ThreadPriority \<Rightarrow> nat \<Rightarrow> world \<Rightarrow> fault + world" where
  "init_loop prio i s =
     (if int i < worker_count (g_fiber_system s)
      then (case init_worker prio i s of
              Inl e \<Rightarrow> Inl e
            | Inr s1 \<Rightarrow> init_loop prio (i + 1) s1)
      else Inr s)"
  by pat_completeness auto

text \<open>The loop body leaves \<open>g_fiber_system.worker_count\<close> alone, so the loop ends.\<close>

lemma mem_alloc_fiber_system [simp]:
  "g_fiber_system (snd (mem_alloc s)) = g_fiber_system s"
  by (simp add: mem_alloc_def split: list.splits)

lemma ensure_capacity_fiber_system [simp]:
  "g_fiber_system (snd (ensure_capacity n s)) = g_fiber_system s"
  by (simp add: ensure_capacity_def mem_alloc_def Let_def split: list.splits option.splits)

lemma CreateKThread_fiber_system [simp]:
  "g_fiber_system (snd (CreateKThread w u s)) = g_fiber_system s"
proof -
  obtain ok s1 where e: "ensure_capacity (Suc (count (g_scheduler s))) s = (ok, s1)" by force
  then have 1: "g_fiber_system s1 = g_fiber_system s"
    using ensure_capacity_fiber_system[of "Suc (count (g_scheduler s))" s] by simp
  obtain t s2 where m: "mem_alloc s1 = (t, s2)" by force
  then have 2: "g_fiber_system s2 = g_fiber_system s1"
    using mem_alloc_fiber_system[of s1] by simp
  show ?thesis using 1 2 by (cases ok; cases t) (simp_all add: CreateKThread_def e m)
qed

lemma SetKThreadPriority_fiber_system [simp]:
  "g_fiber_system (snd (SetKThreadPriority t p s)) = g_fiber_system s"
  by (simp add: SetKThreadPriority_def split: option.splits)

lemma StartKThread_fiber_system [simp]:
  "g_fiber_system (snd (StartKThread t s)) = g_fiber_system s"
  by (simp add: StartKThread_def set_state_def split: option.splits)

lemma init_worker_worker_count:
  assumes "init_worker prio i s = Inr s1"
  shows "worker_count (g_fiber_system s1) = worker_count (g_fiber_system s)"
proof -
  obtain t sa where c: "CreateKThread FiberSchedulerLoop_fn None s = (t, sa)" by force
  then have 1: "g_fiber_system sa = g_fiber_system s"
    using CreateKThread_fiber_system[of FiberSchedulerLoop_fn None s] by simp
  from assms obtain ws where ws: "workers (g_fiber_system sa) = Some ws"
    by (cases "workers (g_fiber_system sa)") (simp_all add: init_worker_def c)
  let ?sb = "sa\<lparr>g_fiber_system := (g_fiber_system sa)\<lparr>workers := Some (ws[i := t])\<rparr>\<rparr>"
  let ?sc = "snd (SetKThreadPriority (array_at (ws[i := t]) i) prio ?sb)"
  have "s1 = snd (StartKThread (array_at (ws[i := t]) i) ?sc)"
    using assms by (simp add: init_worker_def c ws Let_def split: prod.splits)
  then show ?thesis using 1 by simp
qed

termination init_loop
proof (relation "measure (\<lambda>(prio, i, s). nat (worker_count (g_fiber_system s)) - i)", goal_cases)
  case 1
  show ?case by simp
next
  case (2 prio i s s1)
  from init_worker_worker_count[OF 2(2)] 2(1) show ?case by simp
qed

declare init_loop.simps [simp del]

definition InitFiberSys :: "int \<Rightarrow> ThreadPriority \<Rightarrow> world \<Rightarrow> fault + world" where
  "InitFiberSys worker_threads prio s =
     (let s1 = s\<lparr>g_fiber_system := (g_fiber_system s)
                 \<lparr>worker_count := (if worker_threads > 0 then worker_threads else 4)\<rparr>\<rparr>;
          (arr, s2) = mem_alloc s1;
          s3 = s2\<lparr>g_fiber_system := (g_fiber_system s2)
                 \<lparr>workers := (case arr of
                                None \<Rightarrow> None
                              | Some _ \<Rightarrow> Some (replicate (nat (worker_count (g_fiber_system s2))) None)),
                  run_queue := None,
                  running := True\<rparr>\<rparr>
      in init_loop prio 0 s3)"

text \<open>
  \<open>shutdown_worker\<close> is the body of the loop of \<open>ShutdownFiberSys\<close>: join the thread in
  slot \<open>i\<close>, then destroy it. \<open>JoinKThread\<close> pumps the tick and need not return, and
  the worker functions that the tick runs may change any global, the loop bound too: the
  loop is a partial function. Freeing the array leaves no trace in this state;
  \<open>ShutdownFiberSys\<close> then clears the array pointer and the queue head.
\<close>

definition shutdown_worker ::
  "unit world_ext kworkers \<Rightarrow> nat \<Rightarrow> world \<Rightarrow> (fault + world) option" where
  "shutdown_worker KW i s =
     (case workers (g_fiber_system s) of
        None \<Rightarrow> Some (Inl NullDeref)
      | Some ws \<Rightarrow>
          (case JoinKThread KW (array_at ws i) s of
             None \<Rightarrow> None
           | Some (r, s1) \<Rightarrow>
               (case workers (g_fiber_system s1) of
                  None \<Rightarrow> Some (Inl NullDeref)
                | Some ws1 \<Rightarrow> Some (Inr (snd (DestroyKThread (array_at ws1 i) s1))))))"

partial_function (option) shutdown_loop ::
  "unit world_ext kworkers \<Rightarrow> nat \<Rightarrow> world \<Rightarrow> (fault + world) option" where
  "shutdown_loop KW i s =
     (if int i < worker_count (g_fiber_system s)
      then (case shutdown_worker KW i s of
              None \<Rightarrow> None
            | Some r \<Rightarrow>
                (case r of
                   Inl e \<Rightarrow> Some (Inl e)
                 | Inr s1 \<Rightarrow> shutdown_loop KW (i + 1) s1))
      else Some (Inr s))"

definition ShutdownFiberSys :: "unit world_ext kworkers \<Rightarrow> world \<Rightarrow> (fault + world) option" where
  "ShutdownFiberSys KW s =
     (case shutdown_loop KW 0 (s\<lparr>g_fiber_system := (g_fiber_system s)\<lparr>running := False\<rparr>\<rparr>) of
        None \<Rightarrow> None
      | Some (Inl e) \<Rightarrow> Some (Inl e)
      | Some (Inr s1) \<Rightarrow>
          Some (Inr (s1\<lparr>g_fiber_system := (g_fiber_system s1)\<lparr>workers := None, run_queue := None\<rparr>\<rparr>)))"

subsection \<open>Operations on a fiber\<close>

text \<open>
  \<open>CreateNewFiber\<close> takes the next answer of \<open>DIESEL_MEM_ALLOC\<close>. \<open>DestroyFiber\<close> frees
  the fiber object; freeing one that is not allocated is the fault \<open>DoubleFree\<close>.
  \<open>JoinFiber\<close> polls the finished flag and yields between polls; the loop need not end,
  so it is a partial function.
\<close>

definition CreateNewFiber :: "fnptr \<Rightarrow> addr option \<Rightarrow> world \<Rightarrow> addr option \<times> world" where
  "CreateNewFiber wrk usr s =
     (case mem_alloc s of
        (None, s1) \<Rightarrow> (None, s1)
      | (Some f, s1) \<Rightarrow>
          (Some f,
           PushFiber f
             (s1\<lparr>fmem := (fmem s1)(f :=
                    \<lparr>fiber_ctx = \<lparr>fiber_ID = f, fiber_user_data = usr\<rparr>, fiber_worker = wrk,
                     fiber_priority = THREAD_PRIORITY_DEFAULT, finished = False, fiber_next = None\<rparr>),
                 flive := insert f (flive s1)\<rparr>)))"


definition RunFiber :: "addr option \<Rightarrow> world \<Rightarrow> world" where
  "RunFiber f s =
     (case f of
        None \<Rightarrow> s
      | Some a \<Rightarrow> if finished (fmem s a) then s else PushFiber a s)"


definition SleepFiber :: "c_int \<Rightarrow> world \<Rightarrow> world" where
  "SleepFiber ms s = SleepKThread ms s"

definition DestroyFiber :: "addr option \<Rightarrow> world \<Rightarrow> fault + world" where
  "DestroyFiber f s =
     (case f of
        None \<Rightarrow> Inr s
      | Some a \<Rightarrow> if a \<in> flive s then Inr (s\<lparr>flive := flive s - {a}\<rparr>) else Inl DoubleFree)"



subsection \<open>The queue as a list\<close>

text \<open>
  \<open>is_queue nxt p q\<close>: following \<open>nxt\<close> from \<open>p\<close> passes exactly the fibers of \<open>q\<close>,
  in order, and ends at \<open>NULL\<close>. \<open>queue_of s q\<close> says this of the run queue in state \<open>s\<close>.
\<close>

fun is_queue :: "(addr \<Rightarrow> addr option) \<Rightarrow> addr option \<Rightarrow> addr list \<Rightarrow> bool" where
  "is_queue nxt p [] = (p = None)"
| "is_queue nxt p (x # xs) = (p = Some x \<and> is_queue nxt (nxt x) xs)"

definition queue_of :: "world \<Rightarrow> addr list \<Rightarrow> bool" where
  "queue_of s q = is_queue (\<lambda>a. fiber_next (fmem s a)) (run_queue (g_fiber_system s)) q"

subsection \<open>States with the same fibers\<close>

text \<open>
  \<open>same_fibers s s'\<close>: the fiber objects, the set of allocated fibers and the global
  \<open>g_fiber_system\<close> are the same in both states.
\<close>

definition same_fibers :: "world \<Rightarrow> world \<Rightarrow> bool" where
  "same_fibers s s' = (fmem s' = fmem s \<and> flive s' = flive s \<and> g_fiber_system s' = g_fiber_system s)"

subsection \<open>Example programs on the fiber system\<close>

text \<open>
  The process at start with given allocator answers; the state after one
  \<open>CreateNewFiber\<close>, with the fiber at address 1 queued; that fiber taken off the queue by
  \<open>PopFiber\<close>, and then marked finished as the scheduler loop does after running it.
\<close>

definition world_init :: "addr option list \<Rightarrow> world" where
  "world_init answers =
     emu.extend (emu_init answers)
       (world.fields
          \<lparr>run_queue = None, workers = None, worker_count = 0, running = False\<rparr>
          (\<lambda>_. \<lparr>fiber_ctx = \<lparr>fiber_ID = 0, fiber_user_data = None\<rparr>, fiber_worker = User_fn 0,
                 fiber_priority = THREAD_PRIORITY_LOW, finished = False, fiber_next = None\<rparr>)
          {})"

definition one_fiber :: world where
  "one_fiber = snd (CreateNewFiber (User_fn 1) None (world_init [Some 1]))"

definition popped_fiber :: world where
  "popped_fiber = snd (PopFiber one_fiber)"

definition finished_fiber :: world where
  "finished_fiber = popped_fiber\<lparr>fmem := (fmem popped_fiber)(1 := (fmem popped_fiber 1)\<lparr>finished := True\<rparr>)\<rparr>"

text \<open>
  A system started with one worker thread, and then a fiber created and left in the
  queue. A system started when the allocator had memory for the array of handles and none
  for the thread table, so that the pool's only slot holds \<open>NULL\<close>, and then a fiber
  created and left in the queue; and the state in which \<open>ShutdownFiberSys\<close> returns from it.
  A thread worker function that frees every fiber when it is called.
\<close>

definition started_pool :: world where
  "started_pool =
     (case InitFiberSys 1 THREAD_PRIORITY_DEFAULT (world_init [Some 100, Some 101, Some 1, Some 2]) of
        Inl e \<Rightarrow> world_init []
      | Inr s1 \<Rightarrow> snd (CreateNewFiber (User_fn 1) None s1))"




subsection \<open>The worker pool while it is being built\<close>



section \<open>The fiber system on preemptive kernel threads (fiber.h on platform/unix/kthread.h)\<close>

















section \<open>Properties of the emulated scheduler\<close>

subsection \<open>The example states, evaluated\<close>

lemma one_thread_eq:
  "one_thread w =
     \<lparr>g_scheduler = \<lparr>threads = [Some 1, None, None, None], count = 1, capacity = 4, current_index = 0\<rparr>,
      kmem = (kmem (emu_init []))
        (1 := \<lparr>ctx = \<lparr>ID = 1, user_data = None\<rparr>, worker = w, state = KTHREAD_READY,
               sleep_ticks = 0, exit_code = 0, joined = False, priority = THREAD_PRIORITY_DEFAULT\<rparr>),
      klive = {1}, next_id = 2, allocs = []\<rparr>"
  by (simp add: one_thread_def emu_init_def CreateKThread_def ensure_capacity_def mem_alloc_def
      Let_def numeral_eq_Suc grow_capacity.simps)

lemma three_threads_eq:
  "three_threads =
     \<lparr>g_scheduler = \<lparr>threads = [Some 1, Some 2, Some 3, None], count = 3, capacity = 4, current_index = 0\<rparr>,
      kmem = (kmem (emu_init []))
        (1 := \<lparr>ctx = \<lparr>ID = 1, user_data = None\<rparr>, worker = User_fn 1, state = KTHREAD_READY,
               sleep_ticks = 0, exit_code = 0, joined = False, priority = THREAD_PRIORITY_LOW\<rparr>,
         2 := \<lparr>ctx = \<lparr>ID = 2, user_data = None\<rparr>, worker = User_fn 1, state = KTHREAD_READY,
               sleep_ticks = 0, exit_code = 0, joined = False, priority = THREAD_PRIORITY_HIGH\<rparr>,
         3 := \<lparr>ctx = \<lparr>ID = 3, user_data = None\<rparr>, worker = User_fn 1, state = KTHREAD_READY,
               sleep_ticks = 0, exit_code = 0, joined = False, priority = THREAD_PRIORITY_HIGH\<rparr>),
      klive = {1, 2, 3}, next_id = 4, allocs = []\<rparr>"
  by (simp add: three_threads_def emu_init_def CreateKThread_def ensure_capacity_def mem_alloc_def
      Let_def SetKThreadPriority_def numeral_eq_Suc fun_upd_twist insert_commute grow_capacity.simps)

lemma destroyed_once_eq:
  "destroyed_once =
     \<lparr>g_scheduler = \<lparr>threads = [Some 1, None, None, None], count = 1, capacity = 4, current_index = 0\<rparr>,
      kmem = (kmem (emu_init []))
        (1 := \<lparr>ctx = \<lparr>ID = 1, user_data = None\<rparr>, worker = User_fn 1, state = KTHREAD_DONE,
               sleep_ticks = 0, exit_code = 0, joined = False, priority = THREAD_PRIORITY_DEFAULT\<rparr>),
      klive = {1}, next_id = 2, allocs = []\<rparr>"
  by (simp add: destroyed_once_def DestroyKThread_def set_state_def one_thread_eq)

lemma joined_done_eq:
  "joined_done =
     \<lparr>g_scheduler = \<lparr>threads = [Some 1, None, None, None], count = 1, capacity = 4, current_index = 0\<rparr>,
      kmem = (kmem (emu_init []))
        (1 := \<lparr>ctx = \<lparr>ID = 1, user_data = None\<rparr>, worker = User_fn 1, state = KTHREAD_DONE,
               sleep_ticks = 0, exit_code = 0, joined = True, priority = THREAD_PRIORITY_DEFAULT\<rparr>),
      klive = {1}, next_id = 2, allocs = []\<rparr>"
  by (simp add: joined_done_def destroyed_once_eq)

subsection \<open>The first loop of the tick\<close>

text \<open>
  No priority is greater than the start value of \<open>best_prio\<close>, the greatest word: the loop
  ends as it began, with no entry selected.
\<close>

lemma scan_selects_nothing: "snd (fold scan_step xs (s, None, - 1)) = (None, - 1)"
proof (induction xs arbitrary: s)
  case Nil
  show ?case by simp
next
  case (Cons i xs)
  have "\<exists>s1. scan_step i (s, None, - 1) = (s1, None, - 1)"
    by (simp add: scan_step_def Let_def not_less split: option.splits)
  then obtain s1 where "scan_step i (s, None, - 1) = (s1, None, - 1)" ..
  with Cons[of s1] show ?case by simp
qed

lemma tick_scan_nothing: "snd (tick_scan s) = (None, - 1)"
  using scan_selects_nothing[of "[0 ..< count (g_scheduler s)]" s] by (simp add: tick_scan_def)

text \<open>So the tick is its two loops, and the worker functions play no part in it.\<close>

lemma tick_cleanup_empty: "count (g_scheduler s) = 0 \<Longrightarrow> tick_cleanup s = s"
  by (simp add: tick_cleanup_def)

lemma KThreadTick_eq: "KThreadTick KW s = tick_cleanup (fst (tick_scan s))"
proof (cases "count (g_scheduler s) = 0")
  case True
  then show ?thesis by (simp add: KThreadTick_def tick_scan_def tick_cleanup_empty)
next
  case False
  obtain s1 b p where sc: "tick_scan s = (s1, b, p)" by (cases "tick_scan s") auto
  with tick_scan_nothing[of s] have "b = None" by simp
  then show ?thesis using False sc by (simp add: KThreadTick_def tick_run_def)
qed

text \<open>What the two loops do to one thread object and to the set of live objects.\<close>

lemma wake_other [simp]:
  "joined (wake k) = joined k" "exit_code (wake k) = exit_code k" "priority (wake k) = priority k"
  "worker (wake k) = worker k"
  "(state (wake k) = KTHREAD_DONE) = (state k = KTHREAD_DONE)"
  "(state (wake k) = KTHREAD_RUNNING) = (state k = KTHREAD_RUNNING)"
  by (simp_all add: wake_def Let_def)

lemma scan_step_kmem:
  "kmem (fst (scan_step i acc)) t = kmem (fst acc) t \<or> kmem (fst (scan_step i acc)) t = wake (kmem (fst acc) t)"
  by (cases acc) (simp add: scan_step_def Let_def split: option.splits)

lemma scan_step_frame [simp]:
  "klive (fst (scan_step i acc)) = klive (fst acc)"
  "g_scheduler (fst (scan_step i acc)) = g_scheduler (fst acc)"
  by (cases acc; simp add: scan_step_def Let_def split: option.splits)+

lemma scan_fold_frame [simp]:
  "klive (fst (fold scan_step xs acc)) = klive (fst acc)"
  "g_scheduler (fst (fold scan_step xs acc)) = g_scheduler (fst acc)"
  by (induction xs arbitrary: acc; simp)+

lemma scan_fold_kmem:
  assumes "\<And>k. Q (wake k) = Q k"
  shows "Q (kmem (fst (fold scan_step xs acc)) t) = Q (kmem (fst acc) t)"
proof (induction xs arbitrary: acc)
  case Nil
  show ?case by simp
next
  case (Cons i xs)
  from scan_step_kmem[of i acc t] assms have "Q (kmem (fst (scan_step i acc)) t) = Q (kmem (fst acc) t)"
    by auto
  with Cons[of "scan_step i acc"] show ?case by simp
qed

lemma cleanup_step_frame [simp]: "kmem (fst (cleanup_step i acc)) = kmem (fst acc)"
  by (cases acc) (simp add: cleanup_step_def split: option.splits)

lemma cleanup_fold_kmem [simp]: "kmem (fst (fold cleanup_step xs acc)) = kmem (fst acc)"
  by (induction xs arbitrary: acc) simp_all

lemma cleanup_step_keeps:
  assumes "t \<in> klive (fst acc)" "joined (kmem (fst acc) t) \<or> state (kmem (fst acc) t) \<noteq> KTHREAD_DONE"
  shows "t \<in> klive (fst (cleanup_step i acc))"
  using assms by (cases acc) (auto simp: cleanup_step_def split: option.splits)

lemma cleanup_fold_keeps:
  assumes "t \<in> klive (fst acc)" "joined (kmem (fst acc) t) \<or> state (kmem (fst acc) t) \<noteq> KTHREAD_DONE"
  shows "t \<in> klive (fst (fold cleanup_step xs acc))"
  using assms
proof (induction xs arbitrary: acc)
  case Nil
  then show ?case by simp
next
  case (Cons i xs)
  from cleanup_step_keeps[OF Cons.prems] Cons.prems(2)
  show ?case by (simp add: Cons.IH)
qed

lemma tick_cleanup_kmem [simp]: "kmem (tick_cleanup s) = kmem s"
proof -
  have "kmem (fst (fold cleanup_step [0 ..< count (g_scheduler s)] (s, 0))) = kmem s" by simp
  then show ?thesis
    by (cases "fold cleanup_step [0 ..< count (g_scheduler s)] (s, 0)") (simp add: tick_cleanup_def)
qed

lemma tick_cleanup_keeps:
  assumes "t \<in> klive s" "joined (kmem s t) \<or> state (kmem s t) \<noteq> KTHREAD_DONE"
  shows "t \<in> klive (tick_cleanup s)"
proof -
  have "t \<in> klive (fst (fold cleanup_step [0 ..< count (g_scheduler s)] (s, 0)))"
    by (rule cleanup_fold_keeps) (use assms in simp_all)
  then show ?thesis
    by (cases "fold cleanup_step [0 ..< count (g_scheduler s)] (s, 0)") (simp add: tick_cleanup_def)
qed

lemma KThreadTick_thread:
  assumes "\<And>k. Q (wake k) = Q k"
  shows "Q (kmem (KThreadTick KW s) t) = Q (kmem s t)"
  using scan_fold_kmem[of Q "[0 ..< count (g_scheduler s)]" "(s, None, prio_val THREAD_PRIORITY_LOW - 1)" t, OF assms]
  by (simp add: KThreadTick_eq tick_scan_def)

lemma KThreadTick_keeps_joined:
  assumes "t \<in> klive s" "joined (kmem s t)"
  shows "t \<in> klive (KThreadTick KW s)"
proof -
  have "joined (kmem (fst (tick_scan s)) t)"
    using scan_fold_kmem[of joined "[0 ..< count (g_scheduler s)]" "(s, None, prio_val THREAD_PRIORITY_LOW - 1)" t] assms(2)
    by (simp add: tick_scan_def)
  moreover have "t \<in> klive (fst (tick_scan s))" using assms(1) by (simp add: tick_scan_def)
  ultimately show ?thesis unfolding KThreadTick_eq by (intro tick_cleanup_keeps) simp_all
qed

text \<open>
  \<open>JoinKThread\<close> therefore returns exactly when its target is Done already: no tick makes
  a thread Done.
\<close>

lemma join_loop_done:
  "state (kmem s t) = KTHREAD_DONE \<Longrightarrow> join_loop KW t s = Some (exit_code (kmem s t), s)"
  by (subst join_loop.simps) simp

lemma join_loop_returns:
  assumes "join_loop KW t s = Some y"
  shows "state (kmem s t) = KTHREAD_DONE"
proof (rule join_loop.raw_induct[where P = "\<lambda>KW t s y. state (kmem s t) = KTHREAD_DONE", OF _ assms])
  fix loop KW t s y
  assume ih: "\<And>KW t s y. loop KW t s = Some y \<Longrightarrow> state (kmem s t) = KTHREAD_DONE"
    and st: "(if state (kmem s t) \<noteq> KTHREAD_DONE then loop KW t (KThreadTick KW s)
              else Some (exit_code (kmem s t), s)) = Some y"
  show "state (kmem s t) = KTHREAD_DONE"
  proof (rule ccontr)
    assume n: "state (kmem s t) \<noteq> KTHREAD_DONE"
    with st have "loop KW t (KThreadTick KW s) = Some y" by simp
    from ih[OF this] have "state (kmem (KThreadTick KW s) t) = KTHREAD_DONE" .
    moreover have "(state (kmem (KThreadTick KW s) t) = KTHREAD_DONE) = (state (kmem s t) = KTHREAD_DONE)"
      by (rule KThreadTick_thread[where Q = "\<lambda>k. state k = KTHREAD_DONE"]) simp
    ultimately show False using n by simp
  qed
qed

lemma join_loop_eq:
  "join_loop KW t s = (if state (kmem s t) = KTHREAD_DONE then Some (exit_code (kmem s t), s) else None)"
  using join_loop_done[of s t KW] join_loop_returns[of KW t s]
  by (cases "join_loop KW t s") auto

lemma JoinKThread_eq:
  "JoinKThread KW (Some t) s =
     (if state (kmem s t) = KTHREAD_DONE
      then Some (exit_code (kmem s t), s\<lparr>kmem := (kmem s)(t := (kmem s t)\<lparr>joined := True\<rparr>)\<rparr>)
      else None)"
  by (simp add: JoinKThread_def join_loop_eq)

subsection \<open>Selection by priority\<close>

text \<open>
  Claim C2 (the tick selects the Ready entry of highest priority, the lowest index among
  equals, and runs nothing when no entry is Ready). The first loop of \<open>KThreadTick\<close> never
  selects an entry, whatever the table holds, so the tick is its two loops and calls no
  worker function. On the table of three Ready threads of priorities Low, High, High the
  claim has the tick select the thread in slot 1; the tick leaves the table and the
  threads as they are, and the worker function, which would set \<open>next_id\<close> to zero, has
  not been called.
\<close>

theorem tick_selects_no_ready_entry:
  "fst (snd (tick_scan s)) = None
   \<and> KThreadTick KW s = tick_cleanup (fst (tick_scan s))
   \<and> table three_threads = [Some 1, Some 2, Some 3]
   \<and> map (\<lambda>t. state (kmem three_threads t)) [1, 2, 3] = [KTHREAD_READY, KTHREAD_READY, KTHREAD_READY]
   \<and> map (\<lambda>t. priority (kmem three_threads t)) [1, 2, 3]
       = [THREAD_PRIORITY_LOW, THREAD_PRIORITY_HIGH, THREAD_PRIORITY_HIGH]
   \<and> tick_scan three_threads = (three_threads, None, - 1)
   \<and> KThreadTick tracing_workers three_threads = three_threads
   \<and> next_id (KThreadTick tracing_workers three_threads) = 4"
proof -
  have 1: "fst (snd (tick_scan s)) = None" by (simp add: tick_scan_nothing)
  have 2: "table three_threads = [Some 1, Some 2, Some 3]" by (simp add: table_def three_threads_eq)
  have 3: "map (\<lambda>t. state (kmem three_threads t)) [1, 2, 3] = [KTHREAD_READY, KTHREAD_READY, KTHREAD_READY]"
    "map (\<lambda>t. priority (kmem three_threads t)) [1, 2, 3]
       = [THREAD_PRIORITY_LOW, THREAD_PRIORITY_HIGH, THREAD_PRIORITY_HIGH]"
    by (simp_all add: three_threads_eq)
  have 4: "tick_scan three_threads = (three_threads, None, - 1)"
    by (simp add: three_threads_eq tick_scan_def scan_step_def slot_def wake_def Let_def
        upt_rec numeral_eq_Suc)
  have 5: "tick_cleanup three_threads = three_threads"
    by (simp add: three_threads_eq tick_cleanup_def cleanup_step_def slot_def upt_rec numeral_eq_Suc)
  have 6: "KThreadTick tracing_workers three_threads = three_threads"
    by (simp add: KThreadTick_eq 4 5)
  have 7: "next_id (KThreadTick tracing_workers three_threads) = 4"
    unfolding 6 by (simp add: three_threads_eq)
  from 1 2 3 4 6 7 KThreadTick_eq[of KW s] show ?thesis by simp
qed

subsection \<open>The block that runs a selected entry\<close>

text \<open>
  The block of \<open>KThreadTick\<close> that is guarded by \<open>best_index != SIZE_MAX\<close>, taken alone:
  after the selected worker has returned it sets the entry's state from the state the
  worker left, still Running becomes Ready, Sleeping stays, anything else becomes Done.
  No tick reaches this block (\<open>tick_scan_nothing\<close>).
\<close>

lemma tick_run_selected_state:
  assumes "slot s b = Some t"
  shows "state (kmem (tick_run KW (Some b) s) t) =
     (case state (kmem (KW (worker (kmem s t)) t
                     (set_state t KTHREAD_RUNNING (s\<lparr>g_scheduler := (g_scheduler s)\<lparr>current_index := b\<rparr>\<rparr>))) t) of
        KTHREAD_RUNNING \<Rightarrow> KTHREAD_READY
      | KTHREAD_SLEEPING \<Rightarrow> KTHREAD_SLEEPING
      | _ \<Rightarrow> KTHREAD_DONE)"
proof -
  let ?s1 = "s\<lparr>g_scheduler := (g_scheduler s)\<lparr>current_index := b\<rparr>\<rparr>"
  let ?s3 = "KW (worker (kmem s t)) t (set_state t KTHREAD_RUNNING ?s1)"
  have sl: "slot ?s1 b = Some t" using assms by (auto simp: slot_def split: if_splits)
  have w: "worker (kmem (set_state t KTHREAD_RUNNING ?s1) t) = worker (kmem s t)"
    by (simp add: set_state_def)
  have "tick_run KW (Some b) s =
      (if state (kmem ?s3 t) = KTHREAD_RUNNING then set_state t KTHREAD_READY ?s3
       else if state (kmem ?s3 t) \<noteq> KTHREAD_SLEEPING then set_state t KTHREAD_DONE ?s3 else ?s3)"
    by (simp add: tick_run_def sl w Let_def)
  then show ?thesis
    by (cases "state (kmem ?s3 t)") (simp_all add: set_state_def)
qed

subsection \<open>Destroying a thread twice\<close>

lemma join_reaches_joined_done:
  "JoinKThread KW (Some 1) destroyed_once = Some (0, joined_done)"
  by (simp add: JoinKThread_eq joined_done_def) (simp add: destroyed_once_eq)

text \<open>
  Claim C8 as stated (a second \<open>Destroy\<close> on a finished and joined thread returns a failure
  indicator and performs no double free) fails on both backends. On the emulated backend
  the thread at address 1 is marked Done by \<open>DestroyKThread\<close> and then joined, and
  \<open>DestroyKThread\<close> on it a second time returns true. On the POSIX backend the thread at
  address 1 has finished and is joined; the first \<open>DestroyKThread\<close> frees the thread
  object and its context and returns true, and the second one reads the freed thread
  object: it returns nothing.
\<close>

theorem second_destroy_succeeds:
  "DestroyKThread (Some 1) (one_thread (User_fn 1)) = (True, destroyed_once)
   \<and> JoinKThread demo_workers (Some 1) destroyed_once = Some (0, joined_done)
   \<and> state (kmem joined_done 1) = KTHREAD_DONE \<and> joined (kmem joined_done 1)
   \<and> DestroyKThread (Some 1) joined_done = (True, joined_done)
   \<and> thread_finished (umem demo_unix 1)
   \<and> unix_JoinKThread demo_pthreads (Some 1) demo_unix = (0, demo_unix)
   \<and> unix_DestroyKThread demo_pthreads (Some 1) demo_unix = Inr (True, demo_unix\<lparr>ulive := {}\<rparr>)
   \<and> unix_DestroyKThread demo_pthreads (Some 1) (demo_unix\<lparr>ulive := {}\<rparr>) = Inl UseAfterFree"
proof -
  have 1: "DestroyKThread (Some 1) (one_thread (User_fn 1)) = (True, destroyed_once)"
    by (simp add: destroyed_once_def DestroyKThread_def)
  have 2: "state (kmem joined_done 1) = KTHREAD_DONE \<and> joined (kmem joined_done 1)"
    by (simp add: joined_done_eq)
  have 3: "DestroyKThread (Some 1) joined_done = (True, joined_done)"
    by (simp add: DestroyKThread_def set_state_def joined_done_eq)
  have 4: "thread_finished (umem demo_unix 1)"
    "unix_JoinKThread demo_pthreads (Some 1) demo_unix = (0, demo_unix)"
    by (simp_all add: unix_JoinKThread_def demo_pthreads_def demo_unix_def)
  have 5: "unix_DestroyKThread demo_pthreads (Some 1) demo_unix = Inr (True, demo_unix\<lparr>ulive := {}\<rparr>)"
    by (auto simp: unix_DestroyKThread_def mem_free_def demo_pthreads_def demo_unix_def)
  have 6: "unix_DestroyKThread demo_pthreads (Some 1) (demo_unix\<lparr>ulive := {}\<rparr>) = Inl UseAfterFree"
    by (simp add: unix_DestroyKThread_def)
  from 1 join_reaches_joined_done[of demo_workers] 2 3 4 5 6 show ?thesis by simp
qed

lemma unix_destroy_live:
  assumes "t \<in> ulive u" "thread_ctx (umem u t) = Some c" "c \<in> ulive u" "c \<noteq> t"
  shows "unix_DestroyKThread P (Some t) u =
           Inr (True, u\<lparr>os := pthread_mutex_destroy P t (pthread_cond_destroy P t
                                (snd (pthread_join P (thread (umem u t)) (os u)))),
                        ulive := ulive u - {c} - {t}\<rparr>)"
  using assms by (simp add: unix_DestroyKThread_def mem_free_def Let_def split: prod.splits)

lemma unix_destroy_freed:
  assumes "t \<notin> ulive u"
  shows "unix_DestroyKThread P (Some t) u = Inl UseAfterFree"
  using assms by (simp add: unix_DestroyKThread_def)

text \<open>
  Claim C8, amended. \<open>DestroyKThread\<close> on a thread that has finished and been joined
  does not report failure. On the emulated backend the call returns true and changes
  nothing: it frees nothing, and no tick frees the thread either, since the tick frees
  only threads that are not joined; so a second call is like the first and there is no
  double free. On the POSIX backend the first call on a live thread object with a live
  context returns true and frees both blocks; a second call on the same handle is not
  detected: it reads the freed thread object before it does anything else.
\<close>

theorem destroy_twice:
  "(t \<in> klive s \<and> state (kmem s t) = KTHREAD_DONE \<and> joined (kmem s t) \<longrightarrow>
        DestroyKThread (Some t) s = (True, s)
        \<and> t \<in> klive (KThreadTick KW s)
        \<and> state (kmem (KThreadTick KW s) t) = KTHREAD_DONE \<and> joined (kmem (KThreadTick KW s) t))
   \<and> (t \<in> ulive u \<and> thread_ctx (umem u t) = Some c \<and> c \<in> ulive u \<and> c \<noteq> t \<longrightarrow>
        (\<exists>u1. unix_DestroyKThread P (Some t) u = Inr (True, u1)
              \<and> ulive u1 = ulive u - {c, t}
              \<and> unix_DestroyKThread P (Some t) u1 = Inl UseAfterFree))"
proof -
  have e: "DestroyKThread (Some t) s = (True, s)
        \<and> t \<in> klive (KThreadTick KW s)
        \<and> state (kmem (KThreadTick KW s) t) = KTHREAD_DONE \<and> joined (kmem (KThreadTick KW s) t)"
    if h: "t \<in> klive s" "state (kmem s t) = KTHREAD_DONE" "joined (kmem s t)"
  proof -
    have "(kmem s t)\<lparr>state := KTHREAD_DONE\<rparr> = kmem s t" using h(2) by simp
    then have 1: "DestroyKThread (Some t) s = (True, s)"
      by (simp add: DestroyKThread_def set_state_def)
    have 2: "t \<in> klive (KThreadTick KW s)" using KThreadTick_keeps_joined[OF h(1,3)] .
    have 3: "state (kmem (KThreadTick KW s) t) = KTHREAD_DONE"
      using KThreadTick_thread[where Q = "\<lambda>k. state k = KTHREAD_DONE", of KW s t] h(2) by simp
    have 4: "joined (kmem (KThreadTick KW s) t)"
      using KThreadTick_thread[where Q = joined, of KW s t] h(3) by simp
    from 1 2 3 4 show ?thesis by simp
  qed
  have x: "\<exists>u1. unix_DestroyKThread P (Some t) u = Inr (True, u1)
              \<and> ulive u1 = ulive u - {c, t}
              \<and> unix_DestroyKThread P (Some t) u1 = Inl UseAfterFree"
    if h: "t \<in> ulive u" "thread_ctx (umem u t) = Some c" "c \<in> ulive u" "c \<noteq> t"
  proof -
    let ?u1 = "u\<lparr>os := pthread_mutex_destroy P t (pthread_cond_destroy P t
                                (snd (pthread_join P (thread (umem u t)) (os u)))),
                        ulive := ulive u - {c} - {t}\<rparr>"
    have 1: "unix_DestroyKThread P (Some t) u = Inr (True, ?u1)" using unix_destroy_live[OF h] .
    have 2: "unix_DestroyKThread P (Some t) ?u1 = Inl UseAfterFree"
      by (rule unix_destroy_freed) simp
    have 3: "ulive ?u1 = ulive u - {c, t}" by auto
    from 1 2 3 show ?thesis by blast
  qed
  from e x show ?thesis by blast
qed

theorem destroy_twice_witness:
  "(1::nat) \<in> klive joined_done \<and> state (kmem joined_done 1) = KTHREAD_DONE \<and> joined (kmem joined_done 1)
   \<and> DestroyKThread (Some 1) joined_done = (True, joined_done)
   \<and> (1::nat) \<in> klive (KThreadTick demo_workers joined_done)
   \<and> (1::nat) \<in> ulive demo_unix \<and> thread_ctx (umem demo_unix 1) = Some 2 \<and> 2 \<in> ulive demo_unix
   \<and> (\<exists>u1. unix_DestroyKThread demo_pthreads (Some 1) demo_unix = Inr (True, u1)
           \<and> ulive u1 = {}
           \<and> unix_DestroyKThread demo_pthreads (Some 1) u1 = Inl UseAfterFree)"
proof -
  have h: "(1::nat) \<in> ulive demo_unix \<and> thread_ctx (umem demo_unix 1) = Some 2 \<and> 2 \<in> ulive demo_unix \<and> (2::nat) \<noteq> 1"
    by (simp add: demo_unix_def)
  have k: "(1::nat) \<in> klive joined_done \<and> state (kmem joined_done 1) = KTHREAD_DONE \<and> joined (kmem joined_done 1)"
    by (simp add: joined_done_eq)
  have l: "ulive demo_unix - {2, 1} = {}" by (auto simp: demo_unix_def)
  from destroy_twice[of 1 joined_done demo_workers demo_unix 2 demo_pthreads] h k
  show ?thesis by (simp only: l) simp
qed

subsection \<open>Null handles\<close>

text \<open>
  Claim C9. Given a null handle, \<open>JoinKThread\<close> returns -1 and \<open>DestroyKThread\<close>,
  \<open>SetKThreadPriority\<close> (for every priority) and \<open>StartKThread\<close> return false, and the
  state after the call is the state before it, on the emulated backend and on the POSIX
  backend.
\<close>

theorem null_handle_is_rejected:
  "JoinKThread KW None s = Some (- 1, s)
   \<and> DestroyKThread None s = (False, s)
   \<and> SetKThreadPriority None p s = (False, s)
   \<and> StartKThread None s = (False, s)
   \<and> unix_JoinKThread P None u = (- 1, u)
   \<and> unix_DestroyKThread P None u = Inr (False, u)
   \<and> unix_SetKThreadPriority P None p u = (False, u)
   \<and> unix_StartKThread P None u = (False, u)"
  by (simp add: JoinKThread_def DestroyKThread_def SetKThreadPriority_def StartKThread_def
      unix_JoinKThread_def unix_DestroyKThread_def unix_SetKThreadPriority_def
      unix_StartKThread_def)


section \<open>Properties of the fiber system\<close>

subsection \<open>The run queue\<close>

text \<open>With no other thread at work each retry loop runs its body once.\<close>

lemma PushFiber_eq:
  "PushFiber f s =
     s\<lparr>fmem := (fmem s)(f := (fmem s f)\<lparr>fiber_next := run_queue (g_fiber_system s)\<rparr>),
       g_fiber_system := (g_fiber_system s)\<lparr>run_queue := Some f\<rparr>\<rparr>"
  by (subst PushFiber.simps) (simp add: cas_run_queue_def FiberDatLoad_run_queue_def Let_def)

lemma PopFiber_eq:
  "PopFiber s =
     (case run_queue (g_fiber_system s) of
        None \<Rightarrow> (None, s)
      | Some f \<Rightarrow> (Some f, s\<lparr>g_fiber_system := (g_fiber_system s)\<lparr>run_queue := fiber_next (fmem s f)\<rparr>\<rparr>))"
  by (subst PopFiber.simps) (simp add: cas_run_queue_def FiberDatLoad_run_queue_def split: option.splits)

lemma is_queue_agree:
  "is_queue nxt p q \<Longrightarrow> (\<And>x. x \<in> set q \<Longrightarrow> nxt' x = nxt x) \<Longrightarrow> is_queue nxt' p q"
  by (induction q arbitrary: p) auto

lemma pop_push_state:
  "PopFiber (PushFiber f s) =
     (Some f, s\<lparr>fmem := (fmem s)(f := (fmem s f)\<lparr>fiber_next := run_queue (g_fiber_system s)\<rparr>)\<rparr>)"
  by (simp add: PushFiber_eq PopFiber_eq)

lemma one_fiber_eq:
  "one_fiber = (world_init [])
     \<lparr>g_fiber_system := \<lparr>run_queue = Some 1, workers = None, worker_count = 0, running = False\<rparr>,
      fmem := (fmem (world_init []))(1 :=
         \<lparr>fiber_ctx = \<lparr>fiber_ID = 1, fiber_user_data = None\<rparr>, fiber_worker = User_fn 1,
          fiber_priority = THREAD_PRIORITY_DEFAULT, finished = False, fiber_next = None\<rparr>),
      flive := {1}\<rparr>"
  by (simp add: one_fiber_def CreateNewFiber_def mem_alloc_def PushFiber_eq world_init_def emu_init_def
       emu.extend_def world.fields_def)

lemma popped_fiber_eq:
  "popped_fiber = one_fiber\<lparr>g_fiber_system := (g_fiber_system one_fiber)\<lparr>run_queue := None\<rparr>\<rparr>"
  by (simp add: popped_fiber_def PopFiber_eq) (simp add: one_fiber_eq)

text \<open>
  Claim C4 as stated (for every queue and every fiber, push then pop leaves the queue as
  it was) fails for a fiber that is already linked in the queue. The queue holds just the
  fiber at address 1; \<open>PushFiber\<close> of that fiber makes its link point to itself, and the
  pop that follows returns it and leaves the head on it: the queue is no longer the
  one-element queue it was but a cycle that every later pop finds non-empty.
\<close>

theorem push_linked_fiber_breaks_queue:
  "queue_of one_fiber [1]
   \<and> fst (PopFiber (PushFiber 1 one_fiber)) = Some 1
   \<and> \<not> queue_of (snd (PopFiber (PushFiber 1 one_fiber))) [1]
   \<and> run_queue (g_fiber_system (snd (PopFiber (PushFiber 1 one_fiber)))) = Some 1
   \<and> fiber_next (fmem (snd (PopFiber (PushFiber 1 one_fiber))) 1) = Some 1"
  by (simp add: PushFiber_eq PopFiber_eq queue_of_def) (simp add: one_fiber_eq)


text \<open>
  Claim C4, amended. \<open>PushFiber(f)\<close> followed at once by \<open>PopFiber\<close> returns \<open>f\<close> and
  changes nothing but the link field of \<open>f\<close>, which now holds the old head; so for a
  fiber \<open>f\<close> that is not linked in the queue \<open>q\<close> the queue is \<open>q\<close> again. \<open>PopFiber\<close> on
  the empty queue returns \<open>NULL\<close> and changes nothing.
\<close>

theorem push_then_pop:
  "PopFiber (PushFiber f s) =
     (Some f, s\<lparr>fmem := (fmem s)(f := (fmem s f)\<lparr>fiber_next := run_queue (g_fiber_system s)\<rparr>)\<rparr>)
   \<and> (queue_of s q \<and> f \<notin> set q \<longrightarrow> queue_of (snd (PopFiber (PushFiber f s))) q)
   \<and> (queue_of s [] \<longrightarrow> PopFiber s = (None, s) \<and> queue_of (snd (PopFiber s)) [])"
proof -
  have "queue_of (snd (PopFiber (PushFiber f s))) q" if "queue_of s q" "f \<notin> set q"
  proof -
    from that(1) have "is_queue (\<lambda>a. fiber_next (fmem s a)) (run_queue (g_fiber_system s)) q"
      by (simp add: queue_of_def)
    then have "is_queue
        (\<lambda>a. fiber_next (((fmem s)(f := (fmem s f)\<lparr>fiber_next := run_queue (g_fiber_system s)\<rparr>)) a))
        (run_queue (g_fiber_system s)) q"
      by (rule is_queue_agree) (use that(2) in auto)
    then show ?thesis by (simp add: pop_push_state queue_of_def)
  qed
  moreover have "PopFiber s = (None, s) \<and> queue_of (snd (PopFiber s)) []" if "queue_of s []"
    using that by (simp add: queue_of_def PopFiber_eq)
  ultimately show ?thesis using pop_push_state by blast
qed

theorem push_then_pop_witness:
  "queue_of one_fiber [1] \<and> (2::nat) \<notin> set [1]
   \<and> PopFiber (PushFiber 2 one_fiber) =
       (Some 2, one_fiber\<lparr>fmem := (fmem one_fiber)(2 := (fmem one_fiber 2)\<lparr>fiber_next := Some 1\<rparr>)\<rparr>)
   \<and> queue_of (snd (PopFiber (PushFiber 2 one_fiber))) [1]
   \<and> queue_of popped_fiber [] \<and> PopFiber popped_fiber = (None, popped_fiber)"
proof -
  have q: "queue_of one_fiber [1]" by (simp add: queue_of_def one_fiber_eq)
  have r: "run_queue (g_fiber_system one_fiber) = Some 1" by (simp add: one_fiber_eq)
  have e: "queue_of popped_fiber []"
    by (simp add: popped_fiber_def PopFiber_eq queue_of_def one_fiber_eq)
  have n: "(2::nat) \<notin> set [1]" by simp
  have t1: "PopFiber (PushFiber 2 one_fiber) =
       (Some 2, one_fiber\<lparr>fmem := (fmem one_fiber)(2 := (fmem one_fiber 2)\<lparr>fiber_next := Some 1\<rparr>)\<rparr>)"
    using push_then_pop[of 2 one_fiber "[1]"] r by simp
  have t2: "queue_of (snd (PopFiber (PushFiber 2 one_fiber))) [1]"
    using push_then_pop[of 2 one_fiber "[1]"] q n by blast
  have t3: "PopFiber popped_fiber = (None, popped_fiber)"
    using push_then_pop[of 2 popped_fiber "[]"] e by blast
  from q n t1 t2 e t3 show ?thesis by blast
qed

subsection \<open>Resubmitting a fiber\<close>

text \<open>
  Claim C5. \<open>RunFiber\<close> on a null pointer or on a finished fiber changes nothing: the
  queue and the fiber are as before. On a fiber that is not finished it is \<open>PushFiber\<close>:
  the fiber becomes the head of the queue and its link holds the old head. So the fiber is
  enqueued exactly when the pointer is non-null and the finished flag is false.
\<close>

theorem run_fiber_requeues_unfinished:
  "RunFiber None s = s
   \<and> (finished (fmem s f) \<longrightarrow> RunFiber (Some f) s = s)
   \<and> (\<not> finished (fmem s f) \<longrightarrow>
        RunFiber (Some f) s = PushFiber f s
        \<and> run_queue (g_fiber_system (RunFiber (Some f) s)) = Some f
        \<and> fiber_next (fmem (RunFiber (Some f) s) f) = run_queue (g_fiber_system s))"
  by (simp add: RunFiber_def PushFiber_eq)

theorem run_fiber_requeues_unfinished_witness:
  "finished (fmem finished_fiber 1) \<and> RunFiber (Some 1) finished_fiber = finished_fiber
   \<and> \<not> finished (fmem popped_fiber 1) \<and> RunFiber (Some 1) popped_fiber = one_fiber
   \<and> run_queue (g_fiber_system (RunFiber (Some 1) popped_fiber)) = Some 1"
proof -
  have a: "finished (fmem finished_fiber 1)" by (simp add: finished_fiber_def)
  have b: "\<not> finished (fmem popped_fiber 1)" by (simp add: popped_fiber_eq one_fiber_eq)
  have c: "PushFiber 1 popped_fiber = one_fiber"
    by (simp add: PushFiber_eq popped_fiber_eq) (simp add: one_fiber_eq)
  from run_fiber_requeues_unfinished[of finished_fiber 1] a
  have d: "RunFiber (Some 1) finished_fiber = finished_fiber" by blast
  from run_fiber_requeues_unfinished[of popped_fiber 1] b
  have e: "RunFiber (Some 1) popped_fiber = PushFiber 1 popped_fiber"
    "run_queue (g_fiber_system (RunFiber (Some 1) popped_fiber)) = Some 1" by blast+
  from a b c d e show ?thesis by simp
qed

subsection \<open>Creating a fiber\<close>

text \<open>
  Claim C6. When the allocation fails, \<open>CreateNewFiber\<close> returns \<open>NULL\<close> and the fiber
  system, the run queue in it, and the fibers are unchanged. When the allocation returns the
  block \<open>f\<close>, \<open>CreateNewFiber\<close> returns \<open>f\<close>, and in the state it returns in the fiber at \<open>f\<close>
  has ID \<open>f\<close>, the given user data and worker, finished false and priority Default, and it
  is the head of the run queue with the old head behind it: if the queue was \<open>q\<close> and did
  not hold \<open>f\<close>, it is now \<open>f\<close> followed by \<open>q\<close>.
\<close>

theorem create_new_fiber:
  "(fst (mem_alloc s) = None \<longrightarrow>
      CreateNewFiber w u s = (None, snd (mem_alloc s))
      \<and> g_fiber_system (snd (mem_alloc s)) = g_fiber_system s
      \<and> fmem (snd (mem_alloc s)) = fmem s \<and> flive (snd (mem_alloc s)) = flive s)
   \<and> (fst (mem_alloc s) = Some f \<longrightarrow>
      fst (CreateNewFiber w u s) = Some f
      \<and> fiber_ID (fiber_ctx (fmem (snd (CreateNewFiber w u s)) f)) = f
      \<and> fiber_user_data (fiber_ctx (fmem (snd (CreateNewFiber w u s)) f)) = u
      \<and> fiber_worker (fmem (snd (CreateNewFiber w u s)) f) = w
      \<and> \<not> finished (fmem (snd (CreateNewFiber w u s)) f)
      \<and> fiber_priority (fmem (snd (CreateNewFiber w u s)) f) = THREAD_PRIORITY_DEFAULT
      \<and> f \<in> flive (snd (CreateNewFiber w u s))
      \<and> run_queue (g_fiber_system (snd (CreateNewFiber w u s))) = Some f
      \<and> fiber_next (fmem (snd (CreateNewFiber w u s)) f) = run_queue (g_fiber_system s)
      \<and> (queue_of s q \<and> f \<notin> set q \<longrightarrow> queue_of (snd (CreateNewFiber w u s)) (f # q)))"
proof -
  obtain r s1 where m: "mem_alloc s = (r, s1)" by force
  have fr: "g_fiber_system s1 = g_fiber_system s" "fmem s1 = fmem s" "flive s1 = flive s"
    using m by (auto simp: mem_alloc_def split: list.splits)
  have q: "queue_of (snd (CreateNewFiber w u s)) (f # q)"
    if "r = Some f" "queue_of s q" "f \<notin> set q"
  proof -
    let ?s' = "snd (CreateNewFiber w u s)"
    from that(2) have "is_queue (\<lambda>a. fiber_next (fmem s a)) (run_queue (g_fiber_system s)) q"
      by (simp add: queue_of_def)
    then have "is_queue (\<lambda>a. fiber_next (fmem ?s' a)) (run_queue (g_fiber_system s)) q"
      by (rule is_queue_agree) (use that(1,3) in \<open>auto simp: CreateNewFiber_def m PushFiber_eq fr\<close>)
    moreover have "run_queue (g_fiber_system ?s') = Some f"
      "fiber_next (fmem ?s' f) = run_queue (g_fiber_system s)"
      using that(1) by (simp_all add: CreateNewFiber_def m PushFiber_eq fr)
    ultimately show ?thesis by (simp add: queue_of_def)
  qed
  show ?thesis
  proof (cases r)
    case None
    then show ?thesis using fr by (simp add: CreateNewFiber_def m)
  next
    case (Some a)
    then show ?thesis using fr q by (simp add: CreateNewFiber_def m PushFiber_eq)
  qed
qed

theorem create_new_fiber_witness:
  "fst (mem_alloc (world_init [None])) = None
   \<and> CreateNewFiber (User_fn 1) None (world_init [None]) = (None, world_init [])
   \<and> fst (mem_alloc (world_init [Some 1])) = Some 1
   \<and> CreateNewFiber (User_fn 1) None (world_init [Some 1]) = (Some 1, one_fiber)
   \<and> fiber_ID (fiber_ctx (fmem one_fiber 1)) = 1
   \<and> \<not> finished (fmem one_fiber 1)
   \<and> queue_of (world_init [Some 1]) [] \<and> queue_of one_fiber [1]"
proof -
  have a: "fst (mem_alloc (world_init [None])) = None" "snd (mem_alloc (world_init [None])) = world_init []"
    by (simp_all add: mem_alloc_def world_init_def emu_init_def emu.extend_def)
  have b: "fst (mem_alloc (world_init [Some 1])) = Some 1"
    by (simp add: mem_alloc_def world_init_def emu_init_def emu.extend_def)
  have c: "snd (CreateNewFiber (User_fn 1) None (world_init [Some 1])) = one_fiber"
    by (simp add: one_fiber_def)
  have d: "queue_of (world_init [Some 1]) []"
    by (simp add: queue_of_def world_init_def emu.extend_def world.fields_def)
  have n: "(1::nat) \<notin> set []" by simp
  from create_new_fiber[of "world_init [None]" "User_fn 1" None] a
  have e: "CreateNewFiber (User_fn 1) None (world_init [None]) = (None, world_init [])" by simp
  from create_new_fiber[of "world_init [Some 1]" "User_fn 1" None 1 "[]"] b c d n
  have f: "fst (CreateNewFiber (User_fn 1) None (world_init [Some 1])) = Some 1"
    "fiber_ID (fiber_ctx (fmem one_fiber 1)) = 1" "\<not> finished (fmem one_fiber 1)"
    "queue_of one_fiber [1]" by simp_all
  from f(1) c have g: "CreateNewFiber (User_fn 1) None (world_init [Some 1]) = (Some 1, one_fiber)"
    by (simp add: prod_eq_iff)
  from a(1) b d e f g show ?thesis by simp
qed

subsection \<open>Starting the system\<close>

lemma grow_capacity_ge: "c \<le> grow_capacity c m"
proof (induction c m rule: grow_capacity.induct)
  case (1 c m)
  show ?case
  proof (cases "c < m \<and> 0 < c")
    case True
    with 1 have "c * 2 \<le> grow_capacity (c * 2) m" by simp
    then show ?thesis using True by (subst grow_capacity.simps) simp
  next
    case False
    then show ?thesis by (subst grow_capacity.simps) auto
  qed
qed

lemma grow_capacity_enough: "0 < c \<Longrightarrow> m \<le> grow_capacity c m"
proof (induction c m rule: grow_capacity.induct)
  case (1 c m)
  show ?case
  proof (cases "c < m \<and> 0 < c")
    case True
    with 1 have "m \<le> grow_capacity (c * 2) m" by simp
    then show ?thesis using True by (subst grow_capacity.simps) simp
  next
    case False
    then show ?thesis using 1(2) by (subst grow_capacity.simps) auto
  qed
qed

lemma ensure_capacity_table:
  assumes "table_ok s" "ensure_capacity m s = (True, s1)"
  shows "table_ok s1 \<and> table s1 = table s \<and> count (g_scheduler s1) = count (g_scheduler s)
         \<and> m \<le> capacity (g_scheduler s1)"
proof (cases "m \<le> capacity (g_scheduler s)")
  case True
  then show ?thesis using assms by (simp add: ensure_capacity_def)
next
  case False
  let ?c = "if capacity (g_scheduler s) \<noteq> 0 then capacity (g_scheduler s) * 2 else 4"
  let ?n = "grow_capacity ?c m"
  have n: "m \<le> ?n" by (rule grow_capacity_enough) simp
  have "?c \<le> ?n" by (rule grow_capacity_ge)
  then have c: "capacity (g_scheduler s) \<le> ?n" by (simp split: if_splits)
  from assms(2) False have
    "s1 = (snd (mem_alloc s))\<lparr>g_scheduler := (g_scheduler (snd (mem_alloc s)))
           \<lparr>threads := threads (g_scheduler (snd (mem_alloc s)))
               @ replicate (?n - length (threads (g_scheduler (snd (mem_alloc s))))) None,
            capacity := ?n\<rparr>\<rparr>"
    by (auto simp: ensure_capacity_def Let_def split: prod.splits option.splits)
  moreover have "g_scheduler (snd (mem_alloc s)) = g_scheduler s"
    by (simp add: mem_alloc_def split: list.splits)
  ultimately have g: "g_scheduler s1 = (g_scheduler s)
           \<lparr>threads := threads (g_scheduler s) @ replicate (?n - length (threads (g_scheduler s))) None,
            capacity := ?n\<rparr>"
    by simp
  from assms(1) have l: "length (threads (g_scheduler s)) = capacity (g_scheduler s)"
    and k: "count (g_scheduler s) \<le> capacity (g_scheduler s)"
    by (simp_all add: table_ok_def)
  show ?thesis using l k c n by (simp add: table_ok_def table_def g)
qed

lemma CreateKThread_table:
  assumes "table_ok s" "CreateKThread w u s = (Some t, s')"
  shows "table_ok s' \<and> table s' = table s @ [Some t]"
proof -
  obtain ok s1 where e: "ensure_capacity (count (g_scheduler s) + 1) s = (ok, s1)" by force
  with assms(2) have ok: "ok" by (cases ok) (simp_all add: CreateKThread_def)
  from ensure_capacity_table[OF assms(1) e[unfolded ok[THEN eqTrueI]]]
  have t1: "table_ok s1" "table s1 = table s" "count (g_scheduler s1) = count (g_scheduler s)"
    "count (g_scheduler s) + 1 \<le> capacity (g_scheduler s1)"
    by simp_all
  obtain a s2 where m: "mem_alloc s1 = (a, s2)" by force
  then have g2: "g_scheduler s2 = g_scheduler s1" by (auto simp: mem_alloc_def split: list.splits)
  from assms(2) e ok m have a: "a = Some t" by (cases a) (simp_all add: CreateKThread_def)
  from assms(2) e ok m a have
    "g_scheduler s' = (g_scheduler s2)
        \<lparr>threads := (threads (g_scheduler s2))[count (g_scheduler s2) := Some t],
         count := count (g_scheduler s2) + 1\<rparr>"
    by (auto simp: CreateKThread_def)
  then have g: "g_scheduler s' = (g_scheduler s1)
        \<lparr>threads := (threads (g_scheduler s1))[count (g_scheduler s1) := Some t],
         count := count (g_scheduler s1) + 1\<rparr>"
    by (simp add: g2)
  from t1 have l: "length (threads (g_scheduler s1)) = capacity (g_scheduler s1)"
    and c: "count (g_scheduler s1) < length (threads (g_scheduler s1))"
    by (simp_all add: table_ok_def)
  have "take (Suc (count (g_scheduler s1))) ((threads (g_scheduler s1))[count (g_scheduler s1) := Some t])
      = take (count (g_scheduler s1)) (threads (g_scheduler s1)) @ [Some t]"
    using c by (simp add: take_Suc_conv_app_nth)
  then have "table s' = table s1 @ [Some t]" by (simp add: table_def g)
  moreover have "table_ok s'" using l c by (simp add: table_ok_def g)
  ultimately show ?thesis using t1(2) by simp
qed

text \<open>
  The shape \<open>table_ok\<close> holds at the start of the process and is kept by
  \<open>CreateKThread\<close>, whether it succeeds or not, and by the tick; the other operations
  do not touch the table.
\<close>

lemma table_ok_init: "table_ok (emu_init answers)" "table_ok (world_init answers)"
  by (simp_all add: table_ok_def emu_init_def world_init_def emu.extend_def)

lemma ensure_capacity_table_ok:
  assumes "table_ok s"
  shows "table_ok (snd (ensure_capacity m s))"
proof (cases "ensure_capacity m s")
  case (Pair ok s1)
  show ?thesis
  proof (cases ok)
    case True
    with Pair ensure_capacity_table[OF assms, of m s1] show ?thesis by simp
  next
    case False
    with Pair have "g_scheduler s1 = g_scheduler s"
      by (auto simp: ensure_capacity_def mem_alloc_def Let_def split: if_splits list.splits option.splits)
    with assms Pair show ?thesis by (simp add: table_ok_def)
  qed
qed

lemma CreateKThread_table_ok:
  assumes "table_ok s"
  shows "table_ok (snd (CreateKThread w u s))"
proof (cases "CreateKThread w u s")
  case (Pair a s')
  show ?thesis
  proof (cases a)
    case (Some t)
    with Pair CreateKThread_table[OF assms, of w u t s'] show ?thesis by simp
  next
    case None
    obtain ok s1 where e: "ensure_capacity (count (g_scheduler s) + 1) s = (ok, s1)" by force
    from ensure_capacity_table_ok[OF assms, of "count (g_scheduler s) + 1"] e
    have t1: "table_ok s1" by simp
    have "g_scheduler s' = g_scheduler s1"
      using Pair None e
      by (cases ok) (auto simp: CreateKThread_def mem_alloc_def split: list.splits option.splits)
    with t1 Pair show ?thesis by (simp add: table_ok_def)
  qed
qed

lemma cleanup_step_table:
  "length (threads (g_scheduler (fst (cleanup_step i acc)))) = length (threads (g_scheduler (fst acc)))"
  "capacity (g_scheduler (fst (cleanup_step i acc))) = capacity (g_scheduler (fst acc))"
  "count (g_scheduler (fst (cleanup_step i acc))) = count (g_scheduler (fst acc))"
  by (cases acc; simp add: cleanup_step_def split: option.splits)+

lemma cleanup_fold_table:
  "length (threads (g_scheduler (fst (fold cleanup_step xs acc)))) = length (threads (g_scheduler (fst acc)))"
  "capacity (g_scheduler (fst (fold cleanup_step xs acc))) = capacity (g_scheduler (fst acc))"
  "count (g_scheduler (fst (fold cleanup_step xs acc))) = count (g_scheduler (fst acc))"
  by (induction xs arbitrary: acc; simp add: cleanup_step_table)+

lemma KThreadTick_table_ok:
  assumes "table_ok s"
  shows "table_ok (KThreadTick KW s)"
proof -
  let ?s1 = "fst (tick_scan s)"
  have g: "g_scheduler ?s1 = g_scheduler s" by (simp add: tick_scan_def)
  obtain s2 shift where f: "fold cleanup_step [0 ..< count (g_scheduler ?s1)] (?s1, 0) = (s2, shift)"
    by force
  from cleanup_fold_table[of "[0 ..< count (g_scheduler ?s1)]" "(?s1, 0)"] f g
  have "length (threads (g_scheduler s2)) = length (threads (g_scheduler s))"
    "capacity (g_scheduler s2) = capacity (g_scheduler s)"
    "count (g_scheduler s2) = count (g_scheduler s)"
    by simp_all
  with assms show ?thesis by (auto simp: KThreadTick_eq tick_cleanup_def f table_ok_def)
qed









subsection \<open>Stopping the system\<close>

lemma YieldKThread_fmem [simp]: "fmem (YieldKThread s) = fmem s"
  by (simp add: YieldKThread_def set_state_def split: option.splits)

lemma SleepKThread_fibers [simp]:
  "fmem (SleepKThread n s) = fmem s" "g_fiber_system (SleepKThread n s) = g_fiber_system s"
  "flive (SleepKThread n s) = flive s"
  by (simp_all add: SleepKThread_def split: option.splits)



lemma FiberSchedulerLoop_step:
  "FiberSchedulerLoop FW s =
     (if running (g_fiber_system s) then FiberSchedulerLoop FW (scheduler_step FW s) else Some s)"
  by (subst FiberSchedulerLoop.simps) (simp add: scheduler_step_def Let_def split: prod.splits option.splits)

lemma FiberSchedulerLoop_stopped:
  "\<not> running (g_fiber_system s) \<Longrightarrow> FiberSchedulerLoop FW s = Some s"
  by (subst FiberSchedulerLoop.simps) simp



lemma same_fibers_refl [simp]: "same_fibers s s" by (simp add: same_fibers_def)








text \<open>
  A pool that holds a thread which is not Done is never shut down: the join of that thread
  pumps the tick for ever. That is the pool of every \<open>InitFiberSys\<close> whose allocations
  succeeded, since its threads are Running and no tick runs them.
\<close>

lemma shutdown_never_returns:
  assumes "0 < worker_count (g_fiber_system s)" "workers (g_fiber_system s) = Some ws"
    and "array_at ws 0 = Some t" "state (kmem s t) \<noteq> KTHREAD_DONE"
  shows "ShutdownFiberSys KW s = None"
proof -
  let ?s0 = "s\<lparr>g_fiber_system := (g_fiber_system s)\<lparr>running := False\<rparr>\<rparr>"
  have "JoinKThread KW (Some t) ?s0 = None" using assms(4) by (simp add: JoinKThread_eq)
  then have "shutdown_worker KW 0 ?s0 = None" using assms(2,3) by (simp add: shutdown_worker_def)
  then have "shutdown_loop KW 0 ?s0 = None"
    using assms(1) by (subst shutdown_loop.simps) simp
  then show ?thesis by (simp add: ShutdownFiberSys_def)
qed

lemma shutdown_after_init_never_returns:
  assumes "workers (g_fiber_system s) = Some (map Some ts)"
    and "int (length ts) = worker_count (g_fiber_system s)" "0 < worker_count (g_fiber_system s)"
    and "\<forall>t\<in>set ts. state (kmem s t) = KTHREAD_RUNNING"
  shows "ShutdownFiberSys KW s = None"
proof -
  from assms(2,3) have l: "0 < length ts" by (cases ts) auto
  then have "array_at (map Some ts) 0 = Some (ts ! 0)" by (simp add: array_at_def)
  moreover have "state (kmem s (ts ! 0)) \<noteq> KTHREAD_DONE" using assms(4) l by simp
  ultimately show ?thesis using shutdown_never_returns[OF assms(3,1)] by blast
qed




subsection \<open>Stopping the system while the pool runs\<close>
















text \<open>
  The system started with one worker thread and with a fiber in the queue is in the other
  case: \<open>ShutdownFiberSys\<close> does not return from it.
\<close>

lemma started_pool_eq:
  "started_pool =
     (world_init [])
       \<lparr>g_scheduler := \<lparr>threads = [Some 1, None, None, None], count = 1, capacity = 4, current_index = 0\<rparr>,
        kmem := (kmem (world_init []))
          (1 := \<lparr>ctx = \<lparr>ID = 1, user_data = None\<rparr>, worker = FiberSchedulerLoop_fn,
                 state = KTHREAD_RUNNING, sleep_ticks = 0, exit_code = 0, joined = False,
                 priority = THREAD_PRIORITY_DEFAULT\<rparr>),
        klive := {1}, next_id := 2,
        g_fiber_system := \<lparr>run_queue = Some 2, workers = Some [Some 1], worker_count = 1, running = True\<rparr>,
        fmem := (fmem (world_init []))(2 :=
           \<lparr>fiber_ctx = \<lparr>fiber_ID = 2, fiber_user_data = None\<rparr>, fiber_worker = User_fn 1,
            fiber_priority = THREAD_PRIORITY_DEFAULT, finished = False, fiber_next = None\<rparr>),
        flive := {2}\<rparr>"
proof -
  have "InitFiberSys 1 THREAD_PRIORITY_DEFAULT (world_init [Some 100, Some 101, Some 1, Some 2]) =
     Inr ((world_init [Some 2])
       \<lparr>g_scheduler := \<lparr>threads = [Some 1, None, None, None], count = 1, capacity = 4, current_index = 0\<rparr>,
        kmem := (kmem (world_init []))
          (1 := \<lparr>ctx = \<lparr>ID = 1, user_data = None\<rparr>, worker = FiberSchedulerLoop_fn,
                 state = KTHREAD_RUNNING, sleep_ticks = 0, exit_code = 0, joined = False,
                 priority = THREAD_PRIORITY_DEFAULT\<rparr>),
        klive := {1}, next_id := 2,
        g_fiber_system := \<lparr>run_queue = None, workers = Some [Some 1], worker_count = 1, running = True\<rparr>\<rparr>)"
    apply (simp add: InitFiberSys_def mem_alloc_def world_init_def emu_init_def emu.extend_def world.fields_def)
    apply (subst init_loop.simps)
    apply (simp add: init_worker_def CreateKThread_def ensure_capacity_def mem_alloc_def grow_capacity.simps
         SetKThreadPriority_def StartKThread_def set_state_def array_at_def Let_def)
    apply (subst init_loop.simps)
    apply (simp add: numeral_eq_Suc)
    done
  then show ?thesis
    unfolding started_pool_def
    by (simp add: CreateNewFiber_def mem_alloc_def PushFiber_eq
        world_init_def emu_init_def emu.extend_def world.fields_def)
qed

lemma shutdown_started_pool: "ShutdownFiberSys KW started_pool = None"
  by (rule shutdown_never_returns[where ws = "[Some 1]" and t = 1])
     (simp_all add: started_pool_eq array_at_def)

section \<open>Properties of the mutex\<close>

lemma holders_update:
  "i < length xs \<Longrightarrow>
   length (filter holds (xs[i := y])) + (if holds (xs ! i) then 1 else 0)
     = length (filter holds xs) + (if holds y then 1 else 0)"
proof (induction xs arbitrary: i)
  case Nil
  then show ?case by simp
next
  case (Cons x xs)
  then show ?case by (cases i) auto
qed

lemma credit_update:
  "i < length xs \<Longrightarrow>
   sum_list (map credit (xs[i := y])) + credit (xs ! i) = sum_list (map credit xs) + credit y"
proof (induction xs arbitrary: i)
  case Nil
  then show ?case by simp
next
  case (Cons x xs)
  then show ?case by (cases i) auto
qed

lemma no_holder:
  assumes "filter holds xs = []" "j < length xs"
  shows "\<not> holds (xs ! j)"
  using assms by (auto simp: filter_empty_conv)

lemma only_holder:
  assumes "length (filter holds xs) \<le> 1" "i < length xs" "holds (xs ! i)" "j < length xs" "j \<noteq> i"
  shows "\<not> holds (xs ! j)"
proof -
  define y where "y = (xs ! i)\<lparr>pc := Loop_test\<rparr>"
  have ny: "\<not> holds y" by (simp add: y_def holds_def)
  from holders_update[OF assms(2), of y] assms(3) ny
  have "length (filter holds (xs[i := y])) + 1 = length (filter holds xs)" by simp
  with assms(1) have "length (filter holds (xs[i := y])) = 0" by linarith
  then have "filter holds (xs[i := y]) = []" by simp
  from no_holder[OF this, of j] assms(4,5) show ?thesis by simp
qed

text \<open>
  The frame of one action: thread \<open>i\<close> goes from \<open>t\<close> to \<open>t'\<close> and the shared words go
  to new values.
\<close>

lemma step_inv:
  assumes inv: "mutex_inv impl C s"
    and i: "i < length (mthreads s)"
    and s': "mthreads s' = (mthreads s)[i := t']"
    and lk: "(if locked impl s' then 1 else 0) + (if holds (mthreads s ! i) then 1 else 0)
             = (if locked impl s then (1::nat) else 0) + (if holds t' then 1 else 0)"
    and ms: "impl = Futex_mutex \<longrightarrow> mutex_state s' = 0 \<or> mutex_state s' = 1"
    and cr: "counter s' + credit (mthreads s ! i) = counter s + credit t'"
    and ok: "thread_ok impl C (counter s') t'"
    and ch: "counter s' = counter s \<or> holds (mthreads s ! i)"
  shows "mutex_inv impl C s'"
proof -
  from inv have h: "holders s = (if locked impl s then 1 else 0)"
    and c: "counter s = sum_list (map credit (mthreads s))"
    and t: "\<And>j. j < length (mthreads s) \<Longrightarrow> thread_ok impl C (counter s) (mthreads s ! j)"
    by (auto simp: mutex_inv_def)
  have 1: "holders s' = (if locked impl s' then 1 else 0)"
    using holders_update[OF i, of t'] lk h by (simp add: holders_def s' split: if_splits)
  have 2: "counter s' = sum_list (map credit (mthreads s'))"
    using credit_update[OF i, of t'] cr c by (simp add: s')
  have 3: "thread_ok impl C (counter s') (mthreads s' ! j)" if j: "j < length (mthreads s')" for j
  proof (cases "j = i")
    case True
    then show ?thesis using ok i by (simp add: s')
  next
    case False
    from j have j': "j < length (mthreads s)" by (simp add: s')
    have e: "mthreads s' ! j = mthreads s ! j" using False by (simp add: s')
    show ?thesis
    proof (cases "counter s' = counter s")
      case True
      then show ?thesis using t[OF j'] e by simp
    next
      case F: False
      with ch have hi: "holds (mthreads s ! i)" by simp
      have "length (filter holds (mthreads s)) \<le> 1" using h by (simp add: holders_def)
      from only_holder[OF this i hi j' False] have "\<not> holds (mthreads s ! j)" .
      then have "pc (mthreads s ! j) \<noteq> Incr_store" by (auto simp: holds_def)
      then show ?thesis using t[OF j'] e by (simp add: thread_ok_def)
    qed
  qed
  from 1 2 3 ms show ?thesis by (simp add: mutex_inv_def)
qed

lemma wake_thread_inv:
  assumes "mutex_inv impl C s" "k < length (mthreads s)" "pc (mthreads s ! k) = Lock_asleep"
  shows "mutex_inv impl C (set_thread k ((mthreads s ! k)\<lparr>pc := Lock_load\<rparr>) s)"
proof (rule step_inv[OF assms(1,2)])
  show "mthreads (set_thread k ((mthreads s ! k)\<lparr>pc := Lock_load\<rparr>) s)
        = (mthreads s)[k := (mthreads s ! k)\<lparr>pc := Lock_load\<rparr>]"
    by (simp add: set_thread_def)
  from assms have "thread_ok impl C (counter s) (mthreads s ! k)" unfolding mutex_inv_def by blast
  then show "thread_ok impl C (counter (set_thread k ((mthreads s ! k)\<lparr>pc := Lock_load\<rparr>) s))
     ((mthreads s ! k)\<lparr>pc := Lock_load\<rparr>)"
    using assms(3) by (auto simp: thread_ok_def set_thread_def)
  show "impl = Futex_mutex \<longrightarrow> mutex_state (set_thread k ((mthreads s ! k)\<lparr>pc := Lock_load\<rparr>) s) = 0 \<or>
     mutex_state (set_thread k ((mthreads s ! k)\<lparr>pc := Lock_load\<rparr>) s) = 1"
    using assms(1) by (simp add: mutex_inv_def set_thread_def)
qed (use assms(3) in \<open>simp_all add: set_thread_def locked_def holds_def credit_def\<close>)

lemma sleepers_asleep:
  "k \<in> set (sleepers s) \<Longrightarrow> k < length (mthreads s) \<and> pc (mthreads s ! k) = Lock_asleep"
  by (auto simp: sleepers_def)

lemma futex_wake_cases:
  "futex_wake c s = s
   \<or> (\<exists>k. k < length (mthreads s) \<and> pc (mthreads s ! k) = Lock_asleep
          \<and> futex_wake c s = set_thread k ((mthreads s ! k)\<lparr>pc := Lock_load\<rparr>) s)"
proof (cases "sleepers s")
  case Nil
  then show ?thesis by (simp add: futex_wake_def)
next
  case (Cons j js)
  let ?k = "(j # js) ! (c mod length (j # js))"
  have "?k \<in> set (sleepers s)" unfolding Cons by (rule nth_mem) simp
  from sleepers_asleep[OF this] show ?thesis
    by (intro disjI2 exI[of _ ?k]) (simp add: futex_wake_def Cons Let_def)
qed

lemma futex_wake_inv: "mutex_inv impl C s \<Longrightarrow> mutex_inv impl C (futex_wake c s)"
  using futex_wake_cases[of c s] by (auto intro: wake_thread_inv)

lemma futex_wake_frame:
  "mutex_state (futex_wake c s) = mutex_state s" "mtx_locked (futex_wake c s) = mtx_locked s"
  "counter (futex_wake c s) = counter s" "length (mthreads (futex_wake c s)) = length (mthreads s)"
  "pc (mthreads s ! i) \<noteq> Lock_asleep \<Longrightarrow> mthreads (futex_wake c s) ! i = mthreads s ! i"
  using futex_wake_cases[of c s] by (auto simp: set_thread_def nth_list_update)


lemma holder_counted:
  "i < length xs \<Longrightarrow> holds (xs ! i) \<Longrightarrow> 1 \<le> length (filter holds xs)"
proof -
  assume a: "i < length xs" "holds (xs ! i)"
  then have "xs ! i \<in> set (filter holds xs)" by simp
  then have "filter holds xs \<noteq> []" by (metis empty_iff empty_set)
  then show ?thesis by (cases "filter holds xs") simp_all
qed

lemma holder_locks:
  assumes "mutex_inv impl C s" "i < length (mthreads s)" "holds (mthreads s ! i)"
  shows "locked impl s"
proof (rule ccontr)
  assume "\<not> locked impl s"
  with assms(1) have "length (filter holds (mthreads s)) = 0" by (simp add: mutex_inv_def holders_def)
  with holder_counted[OF assms(2,3)] show False by simp
qed

lemmas mutex_simps =
  set_thread_def locked_def holds_def credit_def thread_ok_def atomic_compare_exchange_strong_def
  atomic_load_def atomic_store_def futex_wait_def pthread_mutex_lock_step_def

lemma thread_step_inv:
  assumes inv: "mutex_inv impl C s" and i: "i < length (mthreads s)" and impl: "impl \<noteq> Noop_mutex"
  shows "mutex_inv impl C (thread_step impl C i c s)"
proof -
  let ?t = "mthreads s ! i"
  from inv i have ok: "thread_ok impl C (counter s) ?t" unfolding mutex_inv_def by blast
  from inv have st: "impl = Futex_mutex \<longrightarrow> mutex_state s = 0 \<or> mutex_state s = 1"
    unfolding mutex_inv_def by blast
  have hl: "holds ?t \<Longrightarrow> locked impl s" using holder_locks[OF inv i] .
  have im: "impl = Futex_mutex \<or> impl = Pthread_mutex" using impl by (cases impl) simp_all
  show ?thesis
  proof (cases "pc ?t")
    case Loop_test
    show ?thesis
    proof (cases "iters ?t < C")
      case True
      let ?p = "case impl of Futex_mutex \<Rightarrow> Lock_fast | Pthread_mutex \<Rightarrow> Lock_pthread | Noop_mutex \<Rightarrow> Incr_load"
      have e: "thread_step impl C i c s = set_thread i (?t\<lparr>pc := ?p\<rparr>) s"
        using Loop_test True by (simp add: thread_step_def Let_def)
      show ?thesis unfolding e
        by (rule step_inv[OF inv i, where t' = "?t\<lparr>pc := ?p\<rparr>"])
           (use Loop_test True ok st im in \<open>auto simp: mutex_simps split: mutex_impl.splits\<close>)
    next
      case False
      have e: "thread_step impl C i c s = set_thread i (?t\<lparr>pc := Finished\<rparr>) s"
        using Loop_test False by (simp add: thread_step_def Let_def)
      show ?thesis unfolding e
        by (rule step_inv[OF inv i, where t' = "?t\<lparr>pc := Finished\<rparr>"])
           (use Loop_test False ok st im in \<open>auto simp: mutex_simps\<close>)
    qed
  next
    case Lock_fast
    show ?thesis
    proof (cases "mutex_state s = 0")
      case True
      have e: "thread_step impl C i c s = set_thread i (?t\<lparr>pc := Incr_load\<rparr>) (s\<lparr>mutex_state := 1\<rparr>)"
        using Lock_fast True by (simp add: thread_step_def Let_def mutex_simps)
      show ?thesis unfolding e
        by (rule step_inv[OF inv i, where t' = "?t\<lparr>pc := Incr_load\<rparr>"])
           (use Lock_fast True ok st im in \<open>auto simp: mutex_simps\<close>)
    next
      case False
      have e: "thread_step impl C i c s = set_thread i (?t\<lparr>pc := Lock_load\<rparr>) s"
        using Lock_fast False by (simp add: thread_step_def Let_def mutex_simps)
      show ?thesis unfolding e
        by (rule step_inv[OF inv i, where t' = "?t\<lparr>pc := Lock_load\<rparr>"])
           (use Lock_fast False ok st im in \<open>auto simp: mutex_simps\<close>)
    qed
  next
    case Lock_load
    have e: "thread_step impl C i c s
        = set_thread i (?t\<lparr>pc := (if mutex_state s \<noteq> 0 then Lock_wait else Lock_cas)\<rparr>) s"
      using Lock_load by (simp add: thread_step_def Let_def mutex_simps)
    show ?thesis unfolding e
      by (rule step_inv[OF inv i, where t' = "?t\<lparr>pc := (if mutex_state s \<noteq> 0 then Lock_wait else Lock_cas)\<rparr>"])
         (use Lock_load ok st im in \<open>auto simp: mutex_simps\<close>)
  next
    case Lock_wait
    have e: "thread_step impl C i c s
        = set_thread i (?t\<lparr>pc := (if mutex_state s = 1 then Lock_asleep else Lock_load)\<rparr>) s"
      using Lock_wait by (simp add: thread_step_def Let_def mutex_simps)
    show ?thesis unfolding e
      by (rule step_inv[OF inv i, where t' = "?t\<lparr>pc := (if mutex_state s = 1 then Lock_asleep else Lock_load)\<rparr>"])
         (use Lock_wait ok st im in \<open>auto simp: mutex_simps\<close>)
  next
    case Lock_asleep
    then show ?thesis using inv by (simp add: thread_step_def Let_def)
  next
    case Lock_cas
    show ?thesis
    proof (cases "mutex_state s = 0")
      case True
      have e: "thread_step impl C i c s = set_thread i (?t\<lparr>pc := Incr_load\<rparr>) (s\<lparr>mutex_state := 1\<rparr>)"
        using Lock_cas True by (simp add: thread_step_def Let_def mutex_simps)
      show ?thesis unfolding e
        by (rule step_inv[OF inv i, where t' = "?t\<lparr>pc := Incr_load\<rparr>"])
           (use Lock_cas True ok st im in \<open>auto simp: mutex_simps\<close>)
    next
      case False
      have e: "thread_step impl C i c s = set_thread i (?t\<lparr>pc := Lock_load\<rparr>) s"
        using Lock_cas False by (simp add: thread_step_def Let_def mutex_simps)
      show ?thesis unfolding e
        by (rule step_inv[OF inv i, where t' = "?t\<lparr>pc := Lock_load\<rparr>"])
           (use Lock_cas False ok st im in \<open>auto simp: mutex_simps\<close>)
    qed
  next
    case Lock_pthread
    show ?thesis
    proof (cases "mtx_locked s")
      case True
      then show ?thesis using inv Lock_pthread by (simp add: thread_step_def Let_def mutex_simps)
    next
      case False
      have e: "thread_step impl C i c s = set_thread i (?t\<lparr>pc := Incr_load\<rparr>) (s\<lparr>mtx_locked := True\<rparr>)"
        using Lock_pthread False by (simp add: thread_step_def Let_def mutex_simps)
      show ?thesis unfolding e
        by (rule step_inv[OF inv i, where t' = "?t\<lparr>pc := Incr_load\<rparr>"])
           (use Lock_pthread False ok st im in \<open>auto simp: mutex_simps\<close>)
    qed
  next
    case Incr_load
    have e: "thread_step impl C i c s = set_thread i (?t\<lparr>tmp := counter s, pc := Incr_store\<rparr>) s"
      using Incr_load by (simp add: thread_step_def Let_def)
    show ?thesis unfolding e
      by (rule step_inv[OF inv i, where t' = "?t\<lparr>tmp := counter s, pc := Incr_store\<rparr>"])
         (use Incr_load ok st im in \<open>auto simp: mutex_simps\<close>)
  next
    case Incr_store
    let ?p = "case impl of Futex_mutex \<Rightarrow> Unlock_store | Pthread_mutex \<Rightarrow> Unlock_pthread | Noop_mutex \<Rightarrow> Loop_test"
    have e: "thread_step impl C i c s = set_thread i (?t\<lparr>pc := ?p\<rparr>) (s\<lparr>counter := tmp ?t + 1\<rparr>)"
      using Incr_store impl by (cases impl) (simp_all add: thread_step_def Let_def)
    show ?thesis unfolding e
      by (rule step_inv[OF inv i, where t' = "?t\<lparr>pc := ?p\<rparr>"])
         (use Incr_store ok st im in \<open>auto simp: mutex_simps split: mutex_impl.splits\<close>)
  next
    case Unlock_store
    then have lk: "locked impl s" using hl by (simp add: holds_def)
    have e: "thread_step impl C i c s = set_thread i (?t\<lparr>pc := Unlock_wake\<rparr>) (s\<lparr>mutex_state := 0\<rparr>)"
      using Unlock_store by (simp add: thread_step_def Let_def mutex_simps)
    show ?thesis unfolding e
      by (rule step_inv[OF inv i, where t' = "?t\<lparr>pc := Unlock_wake\<rparr>"])
         (use Unlock_store ok st im lk in \<open>auto simp: mutex_simps\<close>)
  next
    case Unlock_wake
    let ?s1 = "futex_wake c s"
    have inv1: "mutex_inv impl C ?s1" using futex_wake_inv[OF inv] .
    have i1: "i < length (mthreads ?s1)" using i by (simp add: futex_wake_frame)
    have t1: "mthreads ?s1 ! i = ?t" using Unlock_wake by (simp add: futex_wake_frame)
    have e: "thread_step impl C i c s = set_thread i (?t\<lparr>pc := Loop_test, iters := iters ?t + 1\<rparr>) ?s1"
      using Unlock_wake by (simp add: thread_step_def Let_def)
    show ?thesis unfolding e
      by (rule step_inv[OF inv1 i1, where t' = "?t\<lparr>pc := Loop_test, iters := iters ?t + 1\<rparr>"])
         (use Unlock_wake ok st im in \<open>auto simp: mutex_simps t1 futex_wake_frame\<close>)
  next
    case Unlock_pthread
    then have lk: "locked impl s" using hl by (simp add: holds_def)
    have e: "thread_step impl C i c s
        = set_thread i (?t\<lparr>pc := Loop_test, iters := iters ?t + 1\<rparr>) (s\<lparr>mtx_locked := False\<rparr>)"
      using Unlock_pthread by (simp add: thread_step_def Let_def)
    show ?thesis unfolding e
      by (rule step_inv[OF inv i, where t' = "?t\<lparr>pc := Loop_test, iters := iters ?t + 1\<rparr>"])
         (use Unlock_pthread ok st im lk in \<open>auto simp: mutex_simps\<close>)
  next
    case Finished
    then show ?thesis using inv by (simp add: thread_step_def Let_def)
  qed
qed

lemma exec_inv:
  assumes "mutex_inv impl C s" "impl \<noteq> Noop_mutex"
  shows "mutex_inv impl C (exec impl C e s)"
proof (cases e)
  case (Run i c)
  then show ?thesis using assms thread_step_inv by (simp add: exec_def)
next
  case (Interrupt i)
  then show ?thesis using assms wake_thread_inv by (simp add: exec_def)
qed

lemma run_inv:
  assumes "mutex_inv impl C s" "impl \<noteq> Noop_mutex"
  shows "mutex_inv impl C (run impl C es s)"
  using assms(1) unfolding run_def
proof (induction es arbitrary: s)
  case Nil
  then show ?case by simp
next
  case (Cons e es)
  from Cons.IH[OF exec_inv[OF Cons.prems assms(2)]] show ?case by simp
qed

lemma init_inv_m: "mutex_inv impl C (mutex_init N)"
  by (simp add: mutex_inv_def mutex_init_def holders_def holds_def locked_def credit_def thread_ok_def)

lemma thread_step_length: "length (mthreads (thread_step impl C i c s)) = length (mthreads s)"
  by (cases "pc (mthreads s ! i)"; cases impl)
     (simp_all add: thread_step_def Let_def mutex_simps futex_wake_frame)

lemma exec_length [simp]: "length (mthreads (exec impl C e s)) = length (mthreads s)"
  by (cases e) (simp_all add: exec_def thread_step_length set_thread_def)

lemma run_length [simp]: "length (mthreads (run impl C es s)) = length (mthreads s)"
  unfolding run_def by (induction es arbitrary: s) simp_all

lemma all_finished_total:
  assumes "\<forall>j<length xs. thread_ok impl C cnt (xs ! j)" "\<forall>t\<in>set xs. pc t = Finished"
  shows "sum_list (map credit xs) = length xs * C"
  using assms
proof (induction xs)
  case Nil
  then show ?case by simp
next
  case (Cons x xs)
  from Cons.prems(1) have "thread_ok impl C cnt x" by auto
  with Cons.prems(2) have x: "credit x = C" by (simp add: thread_ok_def credit_def)
  have "\<forall>j<length xs. thread_ok impl C cnt (xs ! j)"
    using Cons.prems(1) by auto
  with Cons.IH Cons.prems(2) x show ?case by simp
qed

text \<open>
  Every number of threads and of iterations has a schedule on which all threads finish:
  the one on which they run one after the other.
\<close>

lemma run_append: "run impl C (es @ fs) s = run impl C fs (run impl C es s)"
  by (simp add: run_def)

lemma run_Cons: "run impl C (e # es) s = run impl C es (exec impl C e s)"
  by (simp add: run_def)

lemma run_Nil: "run impl C [] s = s"
  by (simp add: run_def)

lemma quiet_update:
  assumes "quiet s" "i < length (mthreads s)" "pc t = Loop_test \<or> pc t = Finished"
  shows "quiet (s\<lparr>counter := c, mthreads := (mthreads s)[i := t]\<rparr>)"
  using assms by (auto simp: quiet_def nth_list_update)

lemma no_sleepers:
  assumes "\<And>j. j < length (mthreads s) \<Longrightarrow> pc (mthreads s ! j) \<noteq> Lock_asleep"
  shows "sleepers s = []"
  using assms by (auto simp: sleepers_def filter_empty_conv)

lemma one_iteration:
  assumes q: "quiet s" and i: "i < length (mthreads s)"
    and t: "pc (mthreads s ! i) = Loop_test" "iters (mthreads s ! i) < C"
  shows "iterated i 1 s (run impl C (replicate (iteration_steps impl) (Run i 0)) s)"
proof -
  from q have m: "mutex_state s = 0" "\<not> mtx_locked s" by (simp_all add: quiet_def)
  from q have o: "\<And>j. j < length (mthreads s) \<Longrightarrow> pc (mthreads s ! j) = Loop_test \<or> pc (mthreads s ! j) = Finished"
    by (simp add: quiet_def)
  show ?thesis
  proof (cases impl)
    case Futex_mutex
    let ?s5 = "s\<lparr>counter := Suc (counter s), mutex_state := 0,
                 mthreads := (mthreads s)[i := (mthreads s ! i)\<lparr>tmp := counter s, pc := Unlock_wake\<rparr>]\<rparr>"
    have five: "run impl C (replicate 5 (Run i 0)) s = ?s5"
      using Futex_mutex i t m
      by (simp add: numeral_eq_Suc run_Cons run_Nil exec_def thread_step_def Let_def set_thread_def
          atomic_compare_exchange_strong_def atomic_load_def atomic_store_def)
    have "sleepers ?s5 = []"
    proof (rule no_sleepers)
      fix j assume "j < length (mthreads ?s5)"
      then show "pc (mthreads ?s5 ! j) \<noteq> Lock_asleep"
        using o[of j] by (cases "j = i") auto
    qed
    then have w: "futex_wake 0 ?s5 = ?s5" by (simp add: futex_wake_def)
    let ?s6 = "set_thread i ((mthreads ?s5 ! i)\<lparr>pc := Loop_test, iters := iters (mthreads ?s5 ! i) + 1\<rparr>) ?s5"
    have six: "exec impl C (Run i 0) ?s5 = ?s6"
      using i by (simp add: exec_def thread_step_def Let_def w)
    have "replicate (iteration_steps impl) (Run i 0) = replicate 5 (Run i 0) @ [Run i 0]"
      using Futex_mutex by (simp add: iteration_steps_def numeral_eq_Suc)
    then have e: "run impl C (replicate (iteration_steps impl) (Run i 0)) s = ?s6"
      by (simp only: run_append five run_Cons run_Nil six)
    show ?thesis unfolding e iterated_def
      using i m o by (auto simp: quiet_def set_thread_def nth_list_update)
  next
    case Pthread_mutex
    let ?s' = "s\<lparr>counter := Suc (counter s), mtx_locked := False,
                 mthreads := (mthreads s)[i := (mthreads s ! i)
                    \<lparr>tmp := counter s, pc := Loop_test, iters := Suc (iters (mthreads s ! i))\<rparr>]\<rparr>"
    have e: "run impl C (replicate (iteration_steps impl) (Run i 0)) s = ?s'"
      using Pthread_mutex i t m
      by (simp add: iteration_steps_def numeral_eq_Suc run_Cons run_Nil exec_def thread_step_def
          Let_def set_thread_def pthread_mutex_lock_step_def)
    show ?thesis unfolding e iterated_def
      using i m o by (auto simp: quiet_def nth_list_update)
  next
    case Noop_mutex
    let ?s' = "s\<lparr>counter := Suc (counter s),
                 mthreads := (mthreads s)[i := (mthreads s ! i)
                    \<lparr>tmp := counter s, pc := Loop_test, iters := Suc (iters (mthreads s ! i))\<rparr>]\<rparr>"
    have e: "run impl C (replicate (iteration_steps impl) (Run i 0)) s = ?s'"
      using Noop_mutex i t m
      by (simp add: iteration_steps_def numeral_eq_Suc run_Cons run_Nil exec_def thread_step_def
          Let_def set_thread_def)
    show ?thesis unfolding e iterated_def
      using i m o by (auto simp: quiet_def nth_list_update)
  qed
qed

lemma iterated_trans: "iterated i m s s1 \<Longrightarrow> iterated i n s1 s2 \<Longrightarrow> iterated i (m + n) s s2"
  by (auto simp: iterated_def)

lemma iterations:
  assumes "quiet s" "i < length (mthreads s)" "pc (mthreads s ! i) = Loop_test"
    and "iters (mthreads s ! i) + n \<le> C"
  shows "iterated i n s (run impl C (concat (replicate n (replicate (iteration_steps impl) (Run i 0)))) s)"
  using assms
proof (induction n arbitrary: s)
  case 0
  then show ?case by (simp add: run_Nil iterated_def)
next
  case (Suc n)
  let ?s1 = "run impl C (replicate (iteration_steps impl) (Run i 0)) s"
  from Suc.prems have lt: "iters (mthreads s ! i) < C" by simp
  have 1: "iterated i 1 s ?s1" using one_iteration[OF Suc.prems(1,2,3) lt] .
  then have p: "quiet ?s1" "i < length (mthreads ?s1)" "pc (mthreads ?s1 ! i) = Loop_test"
    "iters (mthreads ?s1 ! i) + n \<le> C"
    using Suc.prems(2,4) by (simp_all add: iterated_def)
  from iterated_trans[OF 1 Suc.IH[OF p]] show ?case by (simp add: run_append)
qed

lemma alone_finishes:
  assumes "quiet s" "i < length (mthreads s)" "mthreads s ! i = \<lparr>pc = Loop_test, tmp = 0, iters = 0\<rparr>"
  shows "\<exists>s'. run impl C (alone impl C i) s = s'
     \<and> quiet s' \<and> length (mthreads s') = length (mthreads s)
     \<and> pc (mthreads s' ! i) = Finished
     \<and> (\<forall>j. j \<noteq> i \<longrightarrow> mthreads s' ! j = mthreads s ! j)"
proof -
  let ?s1 = "run impl C (concat (replicate C (replicate (iteration_steps impl) (Run i 0)))) s"
  from assms(3) have t: "pc (mthreads s ! i) = Loop_test" "iters (mthreads s ! i) + C \<le> C" by simp_all
  from iterations[OF assms(1,2) t, of impl] assms(3)
  have p: "quiet ?s1" "length (mthreads ?s1) = length (mthreads s)"
      "pc (mthreads ?s1 ! i) = Loop_test" "iters (mthreads ?s1 ! i) = C"
      "\<forall>j. j \<noteq> i \<longrightarrow> mthreads ?s1 ! j = mthreads s ! j"
    by (simp_all add: iterated_def)
  let ?s2 = "set_thread i ((mthreads ?s1 ! i)\<lparr>pc := Finished\<rparr>) ?s1"
  have e: "exec impl C (Run i 0) ?s1 = ?s2"
    using p(2,3,4) assms(2) by (simp add: exec_def thread_step_def Let_def)
  have "run impl C (alone impl C i) s = ?s2" by (simp add: alone_def run_append run_Cons run_Nil e)
  moreover have "quiet ?s2"
    using p(1) p(2) assms(2) by (auto simp: quiet_def set_thread_def nth_list_update)
  moreover have "pc (mthreads ?s2 ! i) = Finished" using p(2) assms(2) by (simp add: set_thread_def)
  moreover have "\<forall>j. j \<noteq> i \<longrightarrow> mthreads ?s2 ! j = mthreads s ! j" using p(5) by (simp add: set_thread_def)
  moreover have "length (mthreads ?s2) = length (mthreads s)" using p(2) by (simp add: set_thread_def)
  ultimately show ?thesis by blast
qed

lemma one_by_one_prefix:
  assumes "k \<le> N"
  shows "\<exists>s'. run impl C (concat (map (alone impl C) [0 ..< k])) (mutex_init N) = s'
     \<and> quiet s' \<and> length (mthreads s') = N
     \<and> (\<forall>j<k. pc (mthreads s' ! j) = Finished)
     \<and> (\<forall>j. k \<le> j \<and> j < N \<longrightarrow> mthreads s' ! j = \<lparr>pc = Loop_test, tmp = 0, iters = 0\<rparr>)"
  using assms
proof (induction k)
  case 0
  show ?case by (simp add: run_Nil quiet_def mutex_init_def)
next
  case (Suc k)
  then obtain s1 where
    r: "run impl C (concat (map (alone impl C) [0 ..< k])) (mutex_init N) = s1"
    and p: "quiet s1" "length (mthreads s1) = N" "\<forall>j<k. pc (mthreads s1 ! j) = Finished"
      "\<forall>j. k \<le> j \<and> j < N \<longrightarrow> mthreads s1 ! j = \<lparr>pc = Loop_test, tmp = 0, iters = 0\<rparr>"
    by auto
  from Suc.prems p(2,4) have k: "k < length (mthreads s1)" "mthreads s1 ! k = \<lparr>pc = Loop_test, tmp = 0, iters = 0\<rparr>"
    by simp_all
  from alone_finishes[OF p(1) k, of impl C] obtain s2 where
    r2: "run impl C (alone impl C k) s1 = s2"
    and p2: "quiet s2" "length (mthreads s2) = length (mthreads s1)" "pc (mthreads s2 ! k) = Finished"
      "\<forall>j. j \<noteq> k \<longrightarrow> mthreads s2 ! j = mthreads s1 ! j"
    by blast
  have "run impl C (concat (map (alone impl C) [0 ..< Suc k])) (mutex_init N) = s2"
    by (simp add: run_append r r2)
  moreover have "\<forall>j<Suc k. pc (mthreads s2 ! j) = Finished"
    using p(3) p2(3,4) by (auto simp: less_Suc_eq)
  moreover have "\<forall>j. Suc k \<le> j \<and> j < N \<longrightarrow> mthreads s2 ! j = \<lparr>pc = Loop_test, tmp = 0, iters = 0\<rparr>"
    using p(4) p2(4) by auto
  ultimately show ?case using p2(1,2) p(2) by simp
qed

lemma one_by_one_finishes:
  "\<forall>t\<in>set (mthreads (run impl C (one_by_one impl N C) (mutex_init N))). pc t = Finished"
proof -
  from one_by_one_prefix[of N N impl C] obtain s' where
    "run impl C (one_by_one impl N C) (mutex_init N) = s'" "length (mthreads s') = N"
    "\<forall>j<N. pc (mthreads s' ! j) = Finished"
    by (auto simp: one_by_one_def)
  then show ?thesis by (auto simp: in_set_conv_nth)
qed

text \<open>
  Claim C3. With the futex mutex and with the pthread mutex, for every number \<open>N\<close> of
  threads, every number \<open>C\<close> of increments per thread and every schedule: at most one
  thread holds the mutex in the state the schedule leads to, which is any state any
  execution passes through; and if all threads have finished there, the counter is
  \<open>N * C\<close>. There are schedules on which all threads finish, for every \<open>N\<close> and \<open>C\<close>.
\<close>

theorem mutex_mutual_exclusion:
  assumes "impl \<noteq> Noop_mutex"
  shows "holders (run impl C es (mutex_init N)) \<le> 1
     \<and> ((\<forall>t\<in>set (mthreads (run impl C es (mutex_init N))). pc t = Finished)
          \<longrightarrow> counter (run impl C es (mutex_init N)) = N * C)
     \<and> (\<exists>es'. \<forall>t\<in>set (mthreads (run impl C es' (mutex_init N))). pc t = Finished)"
proof -
  let ?s = "run impl C es (mutex_init N)"
  have inv: "mutex_inv impl C ?s" using run_inv[OF init_inv_m assms] .
  then have 1: "holders ?s \<le> 1" by (simp add: mutex_inv_def)
  have len: "length (mthreads ?s) = N" by (simp add: mutex_init_def)
  have 2: "counter ?s = N * C" if f: "\<forall>t\<in>set (mthreads ?s). pc t = Finished"
  proof -
    from inv have "\<forall>j<length (mthreads ?s). thread_ok impl C (counter ?s) (mthreads ?s ! j)"
      and c: "counter ?s = sum_list (map credit (mthreads ?s))"
      unfolding mutex_inv_def by blast+
    from all_finished_total[OF this(1) f] c len show ?thesis by simp
  qed
  have 3: "\<exists>es'. \<forall>t\<in>set (mthreads (run impl C es' (mutex_init N))). pc t = Finished"
    using one_by_one_finishes[of impl C N] by blast
  from 1 2 3 show ?thesis by blast
qed

theorem mutex_mutual_exclusion_witness:
  "Futex_mutex \<noteq> Noop_mutex \<and> Pthread_mutex \<noteq> Noop_mutex
   \<and> map pc (mthreads (run Futex_mutex 1 contended (mutex_init 2))) = [Finished, Finished]
   \<and> holders (run Futex_mutex 1 contended (mutex_init 2)) \<le> 1
   \<and> counter (run Futex_mutex 1 contended (mutex_init 2)) = 2 * 1
   \<and> map pc (mthreads (run Pthread_mutex 1 blocked (mutex_init 2))) = [Finished, Finished]
   \<and> holders (run Pthread_mutex 1 blocked (mutex_init 2)) \<le> 1
   \<and> counter (run Pthread_mutex 1 blocked (mutex_init 2)) = 2 * 1"
proof -
  have f: "map pc (mthreads (run Futex_mutex 1 contended (mutex_init 2))) = [Finished, Finished]"
    by code_simp
  have p: "map pc (mthreads (run Pthread_mutex 1 blocked (mutex_init 2))) = [Finished, Finished]"
    by code_simp
  have "\<forall>x\<in>set (map pc (mthreads (run Futex_mutex 1 contended (mutex_init 2)))). x = Finished"
    unfolding f by simp
  then have f': "\<forall>t\<in>set (mthreads (run Futex_mutex 1 contended (mutex_init 2))). pc t = Finished"
    by simp
  have "\<forall>x\<in>set (map pc (mthreads (run Pthread_mutex 1 blocked (mutex_init 2)))). x = Finished"
    unfolding p by simp
  then have p': "\<forall>t\<in>set (mthreads (run Pthread_mutex 1 blocked (mutex_init 2))). pc t = Finished"
    by simp
  from mutex_mutual_exclusion[of Futex_mutex 1 contended 2] f'
  have 1: "holders (run Futex_mutex 1 contended (mutex_init 2)) \<le> 1"
      "counter (run Futex_mutex 1 contended (mutex_init 2)) = 2 * 1"
    by simp_all
  from mutex_mutual_exclusion[of Pthread_mutex 1 blocked 2] p'
  have 2: "holders (run Pthread_mutex 1 blocked (mutex_init 2)) \<le> 1"
      "counter (run Pthread_mutex 1 blocked (mutex_init 2)) = 2 * 1"
    by simp_all
  from f p 1 2 show ?thesis by simp
qed

text \<open>
  On the contended schedule thread 1 is asleep in the kernel while thread 0 is between
  the load and the store of the increment, and on the other one thread 1 is blocked in
  \<open>pthread_mutex_lock\<close> at that time.
\<close>

lemma contention_happens:
  "map pc (mthreads (run Futex_mutex 1 (take 7 contended) (mutex_init 2))) = [Incr_store, Lock_asleep]"
  "map pc (mthreads (run Pthread_mutex 1 (take 6 blocked) (mutex_init 2))) = [Incr_store, Lock_pthread]"
  by code_simp+

text \<open>
  The counting is the mutex's doing: with the lock that does nothing, a schedule on which
  both threads load before either stores ends with both threads finished and the counter
  at 1.
\<close>

lemma noop_mutex_loses_update:
  "map pc (mthreads (run Noop_mutex 1 racing (mutex_init 2))) = [Finished, Finished]"
  "counter (run Noop_mutex 1 racing (mutex_init 2)) = 1"
  by code_simp+


end
